theory Spec2Isabelle
  imports Main "HOL-Library.Word" "HOL-Library.Signed_Division"
begin

unbundle bit_operations_syntax

section \<open>Machine types\<close>

text \<open>
  Go's \<open>byte\<close>, \<open>int32\<close> and \<open>uint64\<close> are words of that width. Go's \<open>uint\<close> and
  \<open>int\<close> are taken at 64 bits (the amd64 target); their arithmetic wraps around.
  Shifting an unsigned value by a count of 64 or more gives 0 in Go, as \<open>push_bit\<close> and
  \<open>drop_bit\<close> do on a word.
\<close>

type_synonym byte = "8 word"
type_synonym i32 = "32 word"
type_synonym u64 = "64 word"

text \<open>An \<open>error\<close> value of Go: the end of the source, or any other failure of the
  underlying stream.\<close>

datatype error = EOF | IOError nat

text \<open>A run-time panic of Go: an index outside a slice or array, an integer division
  by zero, or the explicit \<open>panic("invalid")\<close> of the field accessors.\<close>

datatype panic = IndexOutOfRange | DivideByZero | Invalid

section \<open>Package bit: the underlying streams\<close>

text \<open>
  The \<open>io.Writer\<close> under a \<open>bit.Writer\<close>. It records the data of every \<open>Write\<close>
  call made so far, and holds the results of the calls to come: \<open>None\<close> for a write
  that succeeds, an error for one that fails; once the list is used up every write
  succeeds.
\<close>

record sink =
  calls :: "byte list list"
  outcomes :: "error option list"

definition sink_Write :: "sink \<Rightarrow> byte list \<Rightarrow> sink \<times> error option" where
  "sink_Write s bs =
     (case outcomes s of
        [] \<Rightarrow> (s\<lparr>calls := calls s @ [bs]\<rparr>, None)
      | r # rs \<Rightarrow> (s\<lparr>calls := calls s @ [bs], outcomes := rs\<rparr>, r))"

definition new_sink :: sink where
  "new_sink = \<lparr>calls = [], outcomes = []\<rparr>"

text \<open>
  The \<open>io.Reader\<close> under a \<open>bit.Reader\<close>. It counts the \<open>Read\<close> calls made so far
  and holds the results of the calls to come, each the content of the one-byte buffer
  after the call together with the error returned; once the list is used up every read
  leaves the buffer at 0 and returns \<open>EOF\<close>.
\<close>

record source =
  nreads :: nat
  pending :: "(byte \<times> error option) list"

definition source_Read :: "source \<Rightarrow> source \<times> byte \<times> error option" where
  "source_Read s =
     (case pending s of
        [] \<Rightarrow> (s\<lparr>nreads := Suc (nreads s)\<rparr>, 0, Some EOF)
      | (b, e) # rest \<Rightarrow> (s\<lparr>nreads := Suc (nreads s), pending := rest\<rparr>, b, e))"

text \<open>A source that delivers the given bytes one by one and then \<open>EOF\<close>.\<close>

definition bytes_source :: "byte list \<Rightarrow> source" where
  "bytes_source bs = \<lparr>nreads = 0, pending = map (\<lambda>b. (b, None)) bs\<rparr>"

section \<open>Package bit: Writer\<close>

record Writer =
  w_sink :: sink
  w_bits :: u64
  w_nbits :: u64
  w_err :: "error option"

definition NewWriter :: "sink \<Rightarrow> Writer" where
  "NewWriter s = \<lparr>w_sink = s, w_bits = 0, w_nbits = 0, w_err = None\<rparr>"

text \<open>The loop of \<open>flush\<close>: it moves whole bytes into \<open>buf\<close>, an array of 16 bytes;
  \<open>None\<close> is the panic of \<open>buf[n]\<close> at \<open>n = 16\<close>.\<close>

function flush_loop :: "u64 \<Rightarrow> u64 \<Rightarrow> byte list \<Rightarrow> (u64 \<times> u64 \<times> byte list) option" where
  "flush_loop bits nbits buf =
     (if 8 < nbits
      then (if length buf < 16
            then flush_loop (drop_bit 8 bits) (nbits - 8) (buf @ [ucast bits])
            else None)
      else Some (bits, nbits, buf))"
  by pat_completeness auto
termination
  by (relation "measure (\<lambda>(bits, nbits, buf). 16 - length buf)") auto

declare flush_loop.simps [simp del]

definition flush :: "Writer \<Rightarrow> panic + Writer" where
  "flush w =
     (if w_err w \<noteq> None then Inr (w\<lparr>w_nbits := 0\<rparr>)
      else case flush_loop (w_bits w) (w_nbits w) [] of
             None \<Rightarrow> Inl IndexOutOfRange
           | Some (bits, nbits, buf) \<Rightarrow>
               (case sink_Write (w_sink w) buf of
                  (s, e) \<Rightarrow> Inr (w\<lparr>w_sink := s, w_bits := bits, w_nbits := nbits, w_err := e\<rparr>)))"

definition flushpartial :: "Writer \<Rightarrow> panic + Writer" where
  "flushpartial w =
     (case flush w of
        Inl p \<Rightarrow> Inl p
      | Inr w1 \<Rightarrow>
          if w_err w1 \<noteq> None then Inr (w1\<lparr>w_nbits := 0\<rparr>)
          else if 0 < w_nbits w1
          then (case sink_Write (w_sink w1) [ucast (w_bits w1)] of
                  (s, e) \<Rightarrow> Inr (w1\<lparr>w_sink := s, w_err := e, w_bits := 0, w_nbits := 0\<rparr>))
          else Inr w1)"

definition WriteBits :: "Writer \<Rightarrow> u64 \<Rightarrow> u64 \<Rightarrow> panic + (Writer \<times> error option)" where
  "WriteBits w x width =
     (let w1 = w\<lparr>w_bits := w_bits w OR push_bit (unat (w_nbits w)) x,
                 w_nbits := w_nbits w + width\<rparr>
      in if 16 < w_nbits w1
         then (case flush w1 of Inl p \<Rightarrow> Inl p | Inr w2 \<Rightarrow> Inr (w2, w_err w2))
         else Inr (w1, w_err w1))"

definition WriteBit :: "Writer \<Rightarrow> u64 \<Rightarrow> panic + (Writer \<times> error option)" where
  "WriteBit w x = WriteBits w (x AND 1) 1"

definition Align :: "Writer \<Rightarrow> panic + (Writer \<times> error option)" where
  "Align w = (case flushpartial w of Inl p \<Rightarrow> Inl p | Inr w1 \<Rightarrow> Inr (w1, w_err w1))"

definition Close :: "Writer \<Rightarrow> panic + (Writer \<times> error option)" where
  "Close w = Align w"

section \<open>Package bit: Reader\<close>

record Reader =
  r_source :: source
  r_bits :: u64
  r_nbits :: u64
  r_err :: "error option"

definition NewReader :: "source \<Rightarrow> Reader" where
  "NewReader s = \<lparr>r_source = s, r_bits = 0, r_nbits = 8, r_err = None\<rparr>"

definition read :: "Reader \<Rightarrow> Reader" where
  "read r =
     (if r_err r \<noteq> None then r\<lparr>r_nbits := 8\<rparr>
      else case source_Read (r_source r) of
             (s, b, e) \<Rightarrow> r\<lparr>r_source := s, r_err := e, r_bits := ucast b\<rparr>)"

definition Reader_Align :: "Reader \<Rightarrow> Reader" where
  "Reader_Align r = r\<lparr>r_nbits := 8\<rparr>"

text \<open>The loop of \<open>ReadBits\<close>, \<open>for int(width)-int(n) > 0\<close>: the second component is
  \<open>None\<close> when the loop is left by \<open>return 0, r.err\<close>, and the accumulated \<open>x\<close>
  otherwise.\<close>

function read_loop :: "Reader \<Rightarrow> u64 \<Rightarrow> u64 \<Rightarrow> u64 \<Rightarrow> Reader \<times> u64 option" where
  "read_loop r width n x =
     (if 0 <s width - n
      then (let r1 = read r; r2 = r1\<lparr>r_nbits := r_nbits r1 - 8\<rparr>
            in if r_err r2 \<noteq> None then (r2, None)
               else read_loop r2 width (n + 8) (x OR push_bit (unat n) (r_bits r2)))
      else (r, Some x))"
  by pat_completeness auto
termination
proof (relation "measure (\<lambda>(r, width, n, x). nat (sint (width - n)))")
  show "wf (measure (\<lambda>(r, width, n, x). nat (sint (width - n))))" by simp
next
  fix r :: Reader and width n x :: u64 and r1 r2 :: Reader
  assume "0 <s width - n"
  then have pos: "0 < sint (width - n)" by (simp add: word_sless_alt)
  have ub: "sint (width - n) < 2 ^ 63" using sint_lt [of "width - n"] by simp
  have "sint (width - n - 8) = signed_take_bit 63 (sint (width - n) - 8)"
    by (simp add: sint_word_ariths)
  also have "\<dots> = sint (width - n) - 8"
    using pos ub by (intro signed_take_bit_int_eq_self) simp_all
  finally have less: "sint (width - n - 8) < sint (width - n)" by simp
  have e: "width - (n + 8) = width - n - 8" by simp
  have "sint (width - (n + 8)) < sint (width - n)"
    unfolding e by (rule less)
  with pos show "((r2, width, n + 8, x OR push_bit (unat n) (r_bits r2)), r, width, n, x)
      \<in> measure (\<lambda>(r, width, n, x). nat (sint (width - n)))"
    by simp
qed

declare read_loop.simps [simp del]

definition ReadBits :: "Reader \<Rightarrow> u64 \<Rightarrow> (u64 \<times> error option) \<times> Reader" where
  "ReadBits r width =
     (if r_err r \<noteq> None then ((0, r_err r), r)
      else if width <s 8 - r_nbits r
      then (let mask = push_bit (unat width) 1 - 1;
                x = drop_bit (unat (r_nbits r)) (r_bits r)
            in ((x AND mask, None), r\<lparr>r_nbits := r_nbits r + width\<rparr>))
      else (case read_loop r width (8 - r_nbits r) (drop_bit (unat (r_nbits r)) (r_bits r)) of
              (r1, None) \<Rightarrow> ((0, r_err r1), r1)
            | (r1, Some x) \<Rightarrow>
                ((x AND (push_bit (unat width) 1 - 1), None),
                 r1\<lparr>r_nbits := r_nbits r1 + width\<rparr>)))"

definition ReadBit :: "Reader \<Rightarrow> (u64 \<times> error option) \<times> Reader" where
  "ReadBit r = ReadBits r 1"

section \<open>Package bit: sequences of calls\<close>

text \<open>A caller that writes a sequence of (value, width) pairs with \<open>WriteBits\<close>, closes
  the writer, and reads the bytes that reached the sink back with \<open>ReadBits\<close>, one call
  for each width.\<close>

fun write_all :: "Writer \<Rightarrow> (u64 \<times> u64) list \<Rightarrow> panic + Writer" where
  "write_all w [] = Inr w"
| "write_all w ((x, width) # rest) =
     (case WriteBits w x width of Inl p \<Rightarrow> Inl p | Inr (w1, e) \<Rightarrow> write_all w1 rest)"

fun read_all :: "Reader \<Rightarrow> u64 list \<Rightarrow> (u64 \<times> error option) list" where
  "read_all r [] = []"
| "read_all r (width # rest) = (case ReadBits r width of (res, r1) \<Rightarrow> res # read_all r1 rest)"

definition written :: "Writer \<Rightarrow> byte list" where
  "written w = concat (calls (w_sink w))"

definition write_then_read :: "(u64 \<times> u64) list \<Rightarrow> panic + (u64 \<times> error option) list" where
  "write_then_read vws =
     (case write_all (NewWriter new_sink) vws of
        Inl p \<Rightarrow> Inl p
      | Inr w \<Rightarrow>
          (case Close w of
             Inl p \<Rightarrow> Inl p
           | Inr (w1, e) \<Rightarrow> Inr (read_all (NewReader (bytes_source (written w1))) (map snd vws))))"

section \<open>Package bit: the stream as a number\<close>

text \<open>
  The quantities in which the round trip of the bit stream is stated. A byte sequence is
  read as a little-endian number (\<open>le_val\<close>), a sequence of (value, width) pairs as the
  number whose bits are the values laid end to end, lowest first (\<open>stream_val\<close>, of
  \<open>stream_len\<close> bits). \<open>writer_holds w s l\<close>: the writer has no error, its sink accepts
  every write, and the bytes written followed by the buffered bits are the \<open>l\<close> bits of
  \<open>s\<close>. \<open>reader_holds r bs\<close>: the reader has no error and the source still holds the
  bytes \<open>bs\<close>; \<open>remaining\<close> is the number made of the unread bits of the current byte
  and of \<open>bs\<close>, \<open>available\<close> their count.
\<close>

fun le_val :: "byte list \<Rightarrow> nat" where
  "le_val [] = 0"
| "le_val (b # bs) = unat b + 256 * le_val bs"

definition writer_holds :: "Writer \<Rightarrow> nat \<Rightarrow> nat \<Rightarrow> bool" where
  "writer_holds w s l \<longleftrightarrow>
     w_err w = None \<and> outcomes (w_sink w) = [] \<and> unat (w_nbits w) \<le> 16 \<and>
     unat (w_bits w) < 2 ^ unat (w_nbits w) \<and>
     l = 8 * length (written w) + unat (w_nbits w) \<and>
     s = le_val (written w) + 256 ^ length (written w) * unat (w_bits w)"

fun stream_val :: "(u64 \<times> u64) list \<Rightarrow> nat" where
  "stream_val [] = 0"
| "stream_val ((x, width) # rest) = unat x + 2 ^ unat width * stream_val rest"

fun stream_len :: "(u64 \<times> u64) list \<Rightarrow> nat" where
  "stream_len [] = 0"
| "stream_len ((x, width) # rest) = unat width + stream_len rest"

definition reader_holds :: "Reader \<Rightarrow> byte list \<Rightarrow> bool" where
  "reader_holds r bs \<longleftrightarrow>
     r_err r = None \<and> pending (r_source r) = map (\<lambda>b. (b, None)) bs \<and>
     unat (r_nbits r) \<le> 8 \<and> unat (r_bits r) < 256"

definition remaining :: "Reader \<Rightarrow> byte list \<Rightarrow> nat" where
  "remaining r bs = unat (r_bits r) div 2 ^ unat (r_nbits r) + 2 ^ (8 - unat (r_nbits r)) * le_val bs"

definition available :: "Reader \<Rightarrow> byte list \<Rightarrow> nat" where
  "available r bs = 8 - unat (r_nbits r) + 8 * length bs"

section \<open>Package physics: cubes and the flattened field accessors\<close>

text \<open>
  One object's quantized state. The struct \<open>Cube\<close> of package physics is declared
  outside the files at hand; its fields are those the code reads and writes, each an
  \<open>int32\<close>, as in the struct \<open>Delta\<close> of the main package. Equality of two cubes is
  field by field, as \<open>==\<close> on a Go struct.
\<close>

record Cube =
  Largest :: i32
  A :: i32
  B :: i32
  C :: i32
  X :: i32
  Y :: i32
  Z :: i32
  Interacting :: i32

text \<open>The six fields of a cube that the indexed pass is about.\<close>

definition fields6 :: "Cube \<Rightarrow> i32 \<times> i32 \<times> i32 \<times> i32 \<times> i32 \<times> i32" where
  "fields6 c = (A c, B c, C c, X c, Y c, Z c)"

text \<open>Indexing a slice with a Go \<open>int\<close>: a panic outside \<open>0 .. len - 1\<close>.\<close>

definition at :: "'a list \<Rightarrow> int \<Rightarrow> panic + 'a" where
  "at xs k = (if 0 \<le> k \<and> k < int (length xs) then Inr (xs ! nat k) else Inl IndexOutOfRange)"

text \<open>Sequencing of two steps of which the first may panic.\<close>

definition andthen :: "panic + 'a \<Rightarrow> ('a \<Rightarrow> panic + 'b) \<Rightarrow> panic + 'b" where
  "andthen m f = (case m of Inl p \<Rightarrow> Inl p | Inr v \<Rightarrow> f v)"

text \<open>
  \<open>index6\<close>, \<open>Value6\<close>, \<open>Delta6\<close> and \<open>Extra6\<close>. Go's \<open>/\<close> and \<open>%\<close> truncate
  towards zero (\<open>sdiv\<close>, \<open>smod\<close>) and panic on a zero divisor; the subtraction and
  addition of \<open>int32\<close> wrap around. Slice lengths and indices are far below
  \<open>2 ^ 63\<close>, so the \<open>int\<close> of Go is the \<open>int\<close> of HOL here.
\<close>

fun index6 :: "int list \<Rightarrow> int \<Rightarrow> int list" where
  "index6 [] N = []"
| "index6 (v # vs) N = [v, v + N, v + N * 2, v + N * 3, v + N * 4, v + N * 5] @ index6 vs N"

definition Value6 :: "Cube list \<Rightarrow> int \<Rightarrow> panic + i32" where
  "Value6 base i =
     (let N = int (length base) in
      if N = 0 then Inl DivideByZero
      else let k = i smod N; q = i sdiv N in
        if q = 0 then andthen (at base k) (\<lambda>b. Inr (A b))
        else if q = 1 then andthen (at base k) (\<lambda>b. Inr (B b))
        else if q = 2 then andthen (at base k) (\<lambda>b. Inr (C b))
        else if q = 3 then andthen (at base k) (\<lambda>b. Inr (X b))
        else if q = 4 then andthen (at base k) (\<lambda>b. Inr (Y b))
        else if q = 5 then andthen (at base k) (\<lambda>b. Inr (Z b))
        else Inl Invalid)"

definition Delta6 :: "Cube list \<Rightarrow> Cube list \<Rightarrow> int \<Rightarrow> panic + i32" where
  "Delta6 hist base i =
     (let N = int (length base) in
      if N = 0 then Inl DivideByZero
      else let k = i smod N; q = i sdiv N in
        if q = 0 then andthen (at hist k) (\<lambda>h. andthen (at base k) (\<lambda>b. Inr (B h - A b)))
        else if q = 1 then andthen (at hist k) (\<lambda>h. andthen (at base k) (\<lambda>b. Inr (B h - B b)))
        else if q = 2 then andthen (at hist k) (\<lambda>h. andthen (at base k) (\<lambda>b. Inr (C h - C b)))
        else if q = 3 then andthen (at hist k) (\<lambda>h. andthen (at base k) (\<lambda>b. Inr (X h - X b)))
        else if q = 4 then andthen (at hist k) (\<lambda>h. andthen (at base k) (\<lambda>b. Inr (Y h - Y b)))
        else if q = 5 then andthen (at hist k) (\<lambda>h. andthen (at base k) (\<lambda>b. Inr (Z h - Z b)))
        else Inl Invalid)"

definition Extra6 :: "Cube list \<Rightarrow> Cube list \<Rightarrow> Cube list \<Rightarrow> int \<Rightarrow> panic + i32" where
  "Extra6 hist base cur i =
     (let N = int (length base) in
      if N = 0 then Inl DivideByZero
      else let k = i smod N; q = i sdiv N in
        if q = 0 then andthen (at cur k) (\<lambda>c. andthen (at base k) (\<lambda>b. andthen (at hist k) (\<lambda>h.
                        Inr (A c - A b + (B h - A b)))))
        else if q = 1 then andthen (at cur k) (\<lambda>c. andthen (at base k) (\<lambda>b. andthen (at hist k) (\<lambda>h.
                        Inr (B c - B b + (B h - B b)))))
        else if q = 2 then andthen (at cur k) (\<lambda>c. andthen (at base k) (\<lambda>b. andthen (at hist k) (\<lambda>h.
                        Inr (C c - C b + (C h - C b)))))
        else if q = 3 then andthen (at cur k) (\<lambda>c. andthen (at base k) (\<lambda>b. andthen (at hist k) (\<lambda>h.
                        Inr (X c - X b + (X h - X b)))))
        else if q = 4 then andthen (at cur k) (\<lambda>c. andthen (at base k) (\<lambda>b. andthen (at hist k) (\<lambda>h.
                        Inr (Y c - Y b + (Y h - Y b)))))
        else if q = 5 then andthen (at cur k) (\<lambda>c. andthen (at base k) (\<lambda>b. andthen (at hist k) (\<lambda>h.
                        Inr (Z c - Z b + (Z h - Z b)))))
        else Inl Invalid)"

section \<open>Package physics: the entropy coder\<close>

text \<open>
  The adaptive binary arithmetic coder of package \<open>coder/arith\<close> and its probability
  model \<open>mZeros\<close> are not among the files at hand. The spec gives the coder as a
  contract: \<open>EncodeBit(model, bit)\<close> and \<open>DecodeBit(model) -> bit\<close>, where decoding
  replays the sequence of encoded symbols in the order of encoding, and the state of the
  model is a function of the symbols seen. The contract speaks of bits only, so what is
  proved below about the symbols a read gives back is stated for symbols 0 and 1.
\<close>

text \<open>Modelled from the spec: the state of the coder (\<open>arith.Encoder\<close> and
  \<open>arith.Decoder\<close> together with the model \<open>mZeros\<close>, all missing) is the sequence of
  symbols coded so far, or still to be decoded; a snapshot is that sequence.\<close>

type_synonym coder = "u64 list"

text \<open>Modelled from the spec: \<open>arith.NewEncoder\<close> (missing), a coder that has coded
  nothing yet.\<close>

definition NewEncoder :: coder where
  "NewEncoder = []"

text \<open>Modelled from the spec: \<open>Model.Encode(enc, bit)\<close> (missing), the spec's
  \<open>EncodeBit(model, bit)\<close>: the symbol is added to those coded.\<close>

definition mEncode :: "coder \<Rightarrow> u64 \<Rightarrow> coder" where
  "mEncode enc b = enc @ [b]"

text \<open>Modelled from the spec: \<open>arith.NewDecoder(snapshot)\<close> (missing), a decoder that
  has the symbols of the snapshot to deliver.\<close>

definition NewDecoder :: "u64 list \<Rightarrow> coder" where
  "NewDecoder snapshot = snapshot"

text \<open>Modelled from the spec: \<open>Model.Decode(dec)\<close> (missing), the spec's
  \<open>DecodeBit(model) -> bit\<close>: the next symbol in the order of encoding. Decoding is
  best-effort: past the end of the snapshot a read gives 0 and no error.\<close>

definition mDecode :: "coder \<Rightarrow> u64 \<times> coder" where
  "mDecode dec = (case dec of [] \<Rightarrow> (0, []) | b # bs \<Rightarrow> (b, bs))"

section \<open>Package physics: State.Encode\<close>

text \<open>The presence pass, \<open>for i := range current\<close>: one symbol for every object, and
  the indices of the changed objects collected in \<open>items\<close>.\<close>

fun encode_presence ::
  "Cube list \<Rightarrow> Cube list \<Rightarrow> nat list \<Rightarrow> coder \<Rightarrow> nat list \<Rightarrow> panic + (coder \<times> nat list)" where
  "encode_presence current baseline [] enc items = Inr (enc, items)"
| "encode_presence current baseline (i # rest) enc items =
     (case at current (int i) of
        Inl p \<Rightarrow> Inl p
      | Inr cube \<Rightarrow>
          (case at baseline (int i) of
             Inl p \<Rightarrow> Inl p
           | Inr base \<Rightarrow>
               if cube = base
               then encode_presence current baseline rest (mEncode enc 0) items
               else encode_presence current baseline rest (mEncode enc 1) (items @ [i])))"

text \<open>The second loop, over \<open>items\<close>: \<open>mzeros.Encode(enc, uint(cube.Interacting^1))\<close>.
  The conversion of an \<open>int32\<close> to \<open>uint\<close> extends the sign.\<close>

fun encode_interacting :: "Cube list \<Rightarrow> nat list \<Rightarrow> coder \<Rightarrow> panic + coder" where
  "encode_interacting current [] enc = Inr enc"
| "encode_interacting current (i # rest) enc =
     (case at current (int i) of
        Inl p \<Rightarrow> Inl p
      | Inr cube \<Rightarrow>
          encode_interacting current rest (mEncode enc (scast (Interacting cube XOR 1))))"

text \<open>The third loop, over \<open>items\<close>: the two low bit planes of
  \<open>cube.Largest ^ base.Largest\<close>.\<close>

fun encode_largest :: "Cube list \<Rightarrow> Cube list \<Rightarrow> nat list \<Rightarrow> coder \<Rightarrow> panic + coder" where
  "encode_largest current baseline [] enc = Inr enc"
| "encode_largest current baseline (i # rest) enc =
     (case at current (int i) of
        Inl p \<Rightarrow> Inl p
      | Inr cube \<Rightarrow>
          (case at baseline (int i) of
             Inl p \<Rightarrow> Inl p
           | Inr base \<Rightarrow>
               (let v = (scast (Largest cube XOR Largest base) :: u64)
                in encode_largest current baseline rest
                     (mEncode (mEncode enc (v AND 1)) (drop_bit 1 v)))))"

text \<open>
  The last loop, over \<open>items6\<close>, evaluates \<open>ext6(i)\<close> and adds bit counts to the
  package counters \<open>totalext\<close> and \<open>totalcur\<close>; it passes nothing to the coder. What
  remains of it for the caller is a panic of \<open>Extra6\<close>. \<open>SortByZ\<close> before it reorders
  the local \<open>items6\<close> by \<open>Delta6\<close>, which reads the same elements of \<open>historic\<close> and
  \<open>baseline\<close> as \<open>Extra6\<close> does.
\<close>

fun encode_extras :: "Cube list \<Rightarrow> Cube list \<Rightarrow> Cube list \<Rightarrow> int list \<Rightarrow> panic + unit" where
  "encode_extras historic baseline current [] = Inr ()"
| "encode_extras historic baseline current (i # rest) =
     (case Extra6 historic baseline current i of
        Inl p \<Rightarrow> Inl p
      | Inr ext \<Rightarrow> encode_extras historic baseline current rest)"

definition Encode :: "Cube list \<Rightarrow> Cube list \<Rightarrow> Cube list \<Rightarrow> panic + u64 list" where
  "Encode historic baseline current =
     andthen (encode_presence current baseline [0..<length current] NewEncoder []) (\<lambda>(enc, items).
     andthen (encode_interacting current items enc) (\<lambda>enc.
     andthen (encode_largest current baseline items enc) (\<lambda>enc.
     andthen (encode_extras historic baseline current
                (index6 (map int items) (int (length baseline)))) (\<lambda>u.
     Inr enc))))"

section \<open>Package physics: State.Decode\<close>

fun decode_presence :: "nat list \<Rightarrow> coder \<Rightarrow> nat list \<Rightarrow> coder \<times> nat list" where
  "decode_presence [] dec items = (dec, items)"
| "decode_presence (i # rest) dec items =
     (case mDecode dec of
        (b, dec') \<Rightarrow>
          if b = 1 then decode_presence rest dec' (items @ [i])
          else decode_presence rest dec' items)"

text \<open>\<open>cube.Interacting = int32(mzeros.Decode(dec) ^ 1)\<close>: the conversion to \<open>int32\<close>
  keeps the low 32 bits.\<close>

fun decode_interacting :: "nat list \<Rightarrow> coder \<Rightarrow> Cube list \<Rightarrow> panic + (coder \<times> Cube list)" where
  "decode_interacting [] dec current = Inr (dec, current)"
| "decode_interacting (i # rest) dec current =
     (case at current (int i) of
        Inl p \<Rightarrow> Inl p
      | Inr cube \<Rightarrow>
          (case mDecode dec of
             (b, dec') \<Rightarrow>
               decode_interacting rest dec'
                 (current[i := cube\<lparr>Interacting := ucast (b XOR 1)\<rparr>])))"

fun decode_largest ::
  "Cube list \<Rightarrow> nat list \<Rightarrow> coder \<Rightarrow> Cube list \<Rightarrow> panic + (coder \<times> Cube list)" where
  "decode_largest baseline [] dec current = Inr (dec, current)"
| "decode_largest baseline (i # rest) dec current =
     (case at current (int i) of
        Inl p \<Rightarrow> Inl p
      | Inr cube \<Rightarrow>
          (case at baseline (int i) of
             Inl p \<Rightarrow> Inl p
           | Inr base \<Rightarrow>
               (case mDecode dec of
                  (v0, dec') \<Rightarrow>
                    (case mDecode dec' of
                       (v1, dec'') \<Rightarrow>
                         decode_largest baseline rest dec''
                           (current[i := cube\<lparr>Largest := Largest base XOR ucast (push_bit 1 v1 OR v0)\<rparr>])))))"

text \<open>Modelled from the spec: the method \<open>Assign\<close> of a frame (missing), called as
  \<open>s.Current().Assign(s.Baseline())\<close>. The spec: decode reconstructs \<open>current\<close> "in
  place starting from a copy of \<open>baseline\<close>". The cubes of the current frame after the
  call are those of the baseline.\<close>

definition Assign :: "Cube list \<Rightarrow> Cube list" where
  "Assign baseline = baseline"

text \<open>
  \<open>State.Decode\<close>. The function has no result in Go: the caller finds the decoded frame
  in \<open>s.Current()\<close>, or a panic reaches it.
\<close>

definition Decode :: "u64 list \<Rightarrow> Cube list \<Rightarrow> panic + Cube list" where
  "Decode snapshot baseline =
     (let current = Assign baseline in
      case decode_presence [0..<length current] (NewDecoder snapshot) [] of
        (dec, items) \<Rightarrow>
          andthen (decode_interacting items dec current) (\<lambda>(dec, current).
          andthen (decode_largest baseline items dec current) (\<lambda>(dec, current).
          Inr current)))"

section \<open>Frames used in the examples\<close>

definition zero_cube :: Cube where
  "zero_cube = \<lparr>Largest = 0, A = 0, B = 0, C = 0, X = 0, Y = 0, Z = 0, Interacting = 0\<rparr>"

definition failing_sink :: sink where
  "failing_sink = \<lparr>calls = [], outcomes = [Some (IOError 7)]\<rparr>"

definition failed_writer :: Writer where
  "failed_writer = \<lparr>w_sink = \<lparr>calls = [[1]], outcomes = []\<rparr>, w_bits = 5, w_nbits = 3,
                      w_err = Some (IOError 7)\<rparr>"

definition failed_reader :: Reader where
  "failed_reader = \<lparr>r_source = bytes_source [9], r_bits = 0, r_nbits = 8, r_err = Some EOF\<rparr>"

section \<open>The flattened field accessors\<close>

lemma at_in_range: "i < length xs \<Longrightarrow> at xs (int i) = Inr (xs ! i)"
  by (simp add: at_def)

lemma flat_index:
  assumes "0 < (N :: int)" "0 \<le> i" "i < 6 * N"
  shows "i sdiv N = i div N" and "i smod N = i mod N"
    and "0 \<le> i mod N" and "i mod N < N" and "i div N \<in> {0, 1, 2, 3, 4, 5}"
proof -
  show "i sdiv N = i div N"
    using assms by (simp add: signed_divide_int_def sgn_if div_abs_eq)
  show "i smod N = i mod N"
    using assms by (simp add: signed_modulo_int_def sgn_if mod_abs_eq)
  show "0 \<le> i mod N" "i mod N < N" using assms by simp_all
  have "0 \<le> i div N" using assms by (simp add: pos_imp_zdiv_nonneg_iff)
  moreover have "i div N < 6"
  proof (rule ccontr)
    assume "\<not> i div N < 6"
    then have "N * 6 \<le> N * (i div N)"
      using assms(1) by (intro mult_left_mono) simp_all
    moreover have "N * (i div N) + i mod N = i" by simp
    moreover have "0 \<le> i mod N" using assms(1) by simp
    ultimately show False using assms(3) by linarith
  qed
  ultimately show "i div N \<in> {0, 1, 2, 3, 4, 5}" by auto
qed

lemma Value6_in_range:
  assumes "0 < length base" "0 \<le> i" "i < 6 * int (length base)"
  shows "Value6 base i =
     Inr (([A, B, C, X, Y, Z] ! nat (i div int (length base))) (base ! nat (i mod int (length base))))"
proof -
  let ?N = "int (length base)"
  have N: "0 < ?N" using assms by simp
  note f = flat_index [OF N assms(2,3)]
  have k: "at base (i mod ?N) = Inr (base ! nat (i mod ?N))"
    using f(3,4) by (simp add: at_def)
  from f(5) show ?thesis
    using N by (auto simp: Value6_def Let_def f(1,2) k andthen_def)
qed


lemma Delta6_in_range:
  assumes "0 < length base" "0 \<le> i" "i < 6 * int (length base)"
  shows "Delta6 hist base i \<noteq> Inl Invalid"
    and "length hist = length base \<Longrightarrow> \<exists>v. Delta6 hist base i = Inr v"
proof -
  let ?N = "int (length base)"
  have N: "0 < ?N" using assms by simp
  note f = flat_index [OF N assms(2,3)]
  have k: "at base (i mod ?N) = Inr (base ! nat (i mod ?N))"
    using f(3,4) by (simp add: at_def)
  from f(5) show "Delta6 hist base i \<noteq> Inl Invalid"
    using N by (auto simp: Delta6_def Let_def f(1,2) k andthen_def at_def split: sum.splits)
  assume "length hist = length base"
  then have h: "at hist (i mod ?N) = Inr (hist ! nat (i mod ?N))"
    using f(3,4) by (simp add: at_def)
  from f(5) show "\<exists>v. Delta6 hist base i = Inr v"
    using N by (auto simp: Delta6_def Let_def f(1,2) k h andthen_def)
qed

lemma Extra6_in_range:
  assumes "0 < length base" "0 \<le> i" "i < 6 * int (length base)"
  shows "Extra6 hist base cur i \<noteq> Inl Invalid"
    and "length hist = length base \<Longrightarrow> length cur = length base
           \<Longrightarrow> \<exists>v. Extra6 hist base cur i = Inr v"
proof -
  let ?N = "int (length base)"
  have N: "0 < ?N" using assms by simp
  note f = flat_index [OF N assms(2,3)]
  have k: "at base (i mod ?N) = Inr (base ! nat (i mod ?N))"
    using f(3,4) by (simp add: at_def)
  from f(5) show "Extra6 hist base cur i \<noteq> Inl Invalid"
    using N by (auto simp: Extra6_def Let_def f(1,2) k andthen_def at_def split: sum.splits)
  assume "length hist = length base" and "length cur = length base"
  then have h: "at hist (i mod ?N) = Inr (hist ! nat (i mod ?N))"
    and c: "at cur (i mod ?N) = Inr (cur ! nat (i mod ?N))"
    using f(3,4) by (simp_all add: at_def)
  from f(5) show "\<exists>v. Extra6 hist base cur i = Inr v"
    using N by (auto simp: Extra6_def Let_def f(1,2) k h c andthen_def)
qed

text \<open>
  C10. For a frame of positive length \<open>N\<close> and an index \<open>0 \<le> i < 6 * N\<close>, \<open>Value6\<close>
  returns field number \<open>i div N\<close> (of A, B, C, X, Y, Z) of cube \<open>i mod N\<close>, and neither
  \<open>Delta6\<close> nor \<open>Extra6\<close> reaches \<open>panic("invalid")\<close>; on frames of the same length
  \<open>N\<close> both return a value.
\<close>

theorem field_accessors_in_domain:
  "0 < length base \<Longrightarrow> 0 \<le> i \<Longrightarrow> i < 6 * int (length base) \<Longrightarrow>
     Value6 base i =
       Inr (([A, B, C, X, Y, Z] ! nat (i div int (length base)))
              (base ! nat (i mod int (length base)))) \<and>
     Delta6 hist base i \<noteq> Inl Invalid \<and>
     Extra6 hist base cur i \<noteq> Inl Invalid \<and>
     (length hist = length base \<longrightarrow> (\<exists>v. Delta6 hist base i = Inr v)) \<and>
     (length hist = length base \<and> length cur = length base
        \<longrightarrow> (\<exists>v. Extra6 hist base cur i = Inr v))"
  using Value6_in_range [of base i] Delta6_in_range [of base i hist]
    Extra6_in_range [of base i hist cur]
  by blast

theorem field_accessors_in_domain_witness:
  "0 < length [zero_cube\<lparr>X := 7\<rparr>] \<and> (0::int) \<le> 3 \<and> (3::int) < 6 * int (length [zero_cube\<lparr>X := 7\<rparr>]) \<and>
   Value6 [zero_cube\<lparr>X := 7\<rparr>] 3 = Inr 7 \<and>
   Delta6 [zero_cube] [zero_cube\<lparr>X := 7\<rparr>] 3 \<noteq> Inl Invalid \<and>
   Extra6 [zero_cube] [zero_cube\<lparr>X := 7\<rparr>] [zero_cube] 3 \<noteq> Inl Invalid \<and>
   (\<exists>v. Delta6 [zero_cube] [zero_cube\<lparr>X := 7\<rparr>] 3 = Inr v) \<and>
   (\<exists>v. Extra6 [zero_cube] [zero_cube\<lparr>X := 7\<rparr>] [zero_cube] 3 = Inr v)"
  using field_accessors_in_domain [of "[zero_cube\<lparr>X := 7\<rparr>]" 3 "[zero_cube]" "[zero_cube]"]
  by (simp add: zero_cube_def)

text \<open>
  C3. The sort key of the entry (object 0, field A) is not computed from field A alone:
  with \<open>historic[0].B = 5\<close> and every other field of both frames 0, \<open>Delta6\<close> gives 5,
  where \<open>historic[0].A - baseline[0].A\<close> is 0. \<open>Extra6\<close> has the same first case.
\<close>

theorem Delta6_field_A_reads_B:
  "Delta6 [zero_cube\<lparr>B := 5\<rparr>] [zero_cube] 0 = Inr 5 \<and>
   A (zero_cube\<lparr>B := 5\<rparr>) - A zero_cube = 0 \<and>
   Extra6 [zero_cube\<lparr>B := 5\<rparr>] [zero_cube] [zero_cube] 0 = Inr 5"
  by (simp add: Delta6_def Extra6_def zero_cube_def andthen_def at_def)

section \<open>The bit stream\<close>

lemma flush_failed: "w_err w = Some e \<Longrightarrow> flush w = Inr (w\<lparr>w_nbits := 0\<rparr>)"
  by (simp add: flush_def)

lemma WriteBits_failed:
  "w_err w = Some e \<Longrightarrow>
   \<exists>w'. WriteBits w x width = Inr (w', Some e) \<and> w_sink w' = w_sink w \<and> w_err w' = Some e"
  by (simp add: WriteBits_def Let_def flush_failed)

lemma Align_failed:
  "w_err w = Some e \<Longrightarrow>
   \<exists>w'. Align w = Inr (w', Some e) \<and> w_sink w' = w_sink w \<and> w_err w' = Some e"
  by (simp add: Align_def flushpartial_def flush_failed)

lemma WriteBits_returns_err:
  "WriteBits w x width = Inr (w', r) \<Longrightarrow> w_err w' = r"
  by (auto simp: WriteBits_def Let_def split: if_splits sum.splits)

lemma Align_returns_err:
  "Align w = Inr (w', r) \<Longrightarrow> w_err w' = r"
  by (auto simp: Align_def split: sum.splits)

lemma ReadBits_failed:
  "r_err r = Some e \<Longrightarrow> ReadBits r width = ((0, Some e), r)"
  by (simp add: ReadBits_def)

lemma read_loop_None:
  "read_loop r width n x = (r1, None) \<Longrightarrow> r_err r1 \<noteq> None"
proof (induction r width n x rule: read_loop.induct)
  case (1 r width n x)
  from "1.prems" show ?case
    by (subst (asm) read_loop.simps) (auto simp: Let_def split: if_splits dest: "1.IH" [OF _ refl refl])
qed

lemma ReadBits_error:
  "ReadBits r width = ((v, Some e), r1) \<Longrightarrow> v = 0 \<and> r_err r1 = Some e"
  by (auto simp: ReadBits_def Let_def split: if_splits prod.splits option.splits dest: read_loop_None)

lemma ex_WriteBits: "WriteBits (NewWriter failing_sink) 131071 17 =
     Inr (\<lparr>w_sink = \<lparr>calls = [[255, 255]], outcomes = []\<rparr>, w_bits = 1, w_nbits = 1,
            w_err = Some (IOError 7)\<rparr>, Some (IOError 7))"
  by (simp add: WriteBits_def NewWriter_def failing_sink_def flush_def flush_loop.simps sink_Write_def)

lemma ex_Align: "Align (NewWriter failing_sink) =
     Inr (\<lparr>w_sink = \<lparr>calls = [[]], outcomes = []\<rparr>, w_bits = 0, w_nbits = 0,
            w_err = Some (IOError 7)\<rparr>, Some (IOError 7))"
  by (simp add: Align_def flushpartial_def NewWriter_def failing_sink_def flush_def flush_loop.simps sink_Write_def)

lemma ex_ReadBits: "ReadBits (NewReader (bytes_source [])) 3 =
     ((0, Some EOF), \<lparr>r_source = \<lparr>nreads = 1, pending = []\<rparr>, r_bits = 0, r_nbits = 0, r_err = Some EOF\<rparr>)"
  by (simp add: ReadBits_def NewReader_def bytes_source_def read_loop.simps read_def source_Read_def word_sless_alt)

text \<open>
  C8. Once a \<open>Writer\<close> holds an error, \<open>WriteBits\<close>, \<open>WriteBit\<close>, \<open>Align\<close> and
  \<open>Close\<close> return that error, keep it, and leave the sink untouched; once a \<open>Reader\<close>
  holds an error, \<open>ReadBits\<close> and \<open>ReadBit\<close> return 0 with that error and change
  nothing, and \<open>Align\<close> makes no read and keeps the error. The error a failing
  \<open>WriteBits\<close>, \<open>Align\<close> or \<open>ReadBits\<close> returns is the one held afterwards, and a
  failing \<open>ReadBits\<close> returns the value 0.
\<close>

theorem bitstream_errors_sticky:
  "(w_err w = Some e \<longrightarrow>
      (\<exists>w'. WriteBits w x width = Inr (w', Some e) \<and> w_sink w' = w_sink w \<and> w_err w' = Some e) \<and>
      (\<exists>w'. WriteBit w x = Inr (w', Some e) \<and> w_sink w' = w_sink w \<and> w_err w' = Some e) \<and>
      (\<exists>w'. Align w = Inr (w', Some e) \<and> w_sink w' = w_sink w \<and> w_err w' = Some e) \<and>
      (\<exists>w'. Close w = Inr (w', Some e) \<and> w_sink w' = w_sink w \<and> w_err w' = Some e)) \<and>
   (r_err r = Some e' \<longrightarrow>
      ReadBits r rwidth = ((0, Some e'), r) \<and>
      ReadBit r = ((0, Some e'), r) \<and>
      r_source (Reader_Align r) = r_source r \<and> r_err (Reader_Align r) = Some e') \<and>
   (WriteBits w0 x0 width0 = Inr (w1, Some e0) \<longrightarrow> w_err w1 = Some e0) \<and>
   (Align w2 = Inr (w3, Some e2) \<longrightarrow> w_err w3 = Some e2) \<and>
   (ReadBits r0 rwidth0 = ((v, Some e1), r1) \<longrightarrow> v = 0 \<and> r_err r1 = Some e1)"
  using WriteBits_failed [of w e x width] WriteBits_failed [of w e "x AND 1" 1]
    Align_failed [of w e] ReadBits_failed [of r e' rwidth] ReadBits_failed [of r e' 1]
    WriteBits_returns_err [of w0 x0 width0 w1 "Some e0"] Align_returns_err [of w2 w3 "Some e2"]
    ReadBits_error [of r0 rwidth0 v e1 r1]
  by (simp add: WriteBit_def Close_def ReadBit_def Reader_Align_def)

theorem bitstream_errors_sticky_witness:
  "w_err failed_writer = Some (IOError 7) \<and>
   r_err failed_reader = Some EOF \<and>
   WriteBits (NewWriter failing_sink) 131071 17 =
     Inr (\<lparr>w_sink = \<lparr>calls = [[255, 255]], outcomes = []\<rparr>, w_bits = 1, w_nbits = 1,
            w_err = Some (IOError 7)\<rparr>, Some (IOError 7)) \<and>
   Align (NewWriter failing_sink) =
     Inr (\<lparr>w_sink = \<lparr>calls = [[]], outcomes = []\<rparr>, w_bits = 0, w_nbits = 0,
            w_err = Some (IOError 7)\<rparr>, Some (IOError 7)) \<and>
   ReadBits (NewReader (bytes_source [])) 3 =
     ((0, Some EOF),
      \<lparr>r_source = \<lparr>nreads = 1, pending = []\<rparr>, r_bits = 0, r_nbits = 0, r_err = Some EOF\<rparr>) \<and>
   (\<exists>w'. WriteBits failed_writer 9 4 = Inr (w', Some (IOError 7)) \<and>
      w_sink w' = w_sink failed_writer \<and> w_err w' = Some (IOError 7)) \<and>
   (\<exists>w'. WriteBit failed_writer 9 = Inr (w', Some (IOError 7)) \<and>
      w_sink w' = w_sink failed_writer \<and> w_err w' = Some (IOError 7)) \<and>
   (\<exists>w'. Align failed_writer = Inr (w', Some (IOError 7)) \<and>
      w_sink w' = w_sink failed_writer \<and> w_err w' = Some (IOError 7)) \<and>
   (\<exists>w'. Close failed_writer = Inr (w', Some (IOError 7)) \<and>
      w_sink w' = w_sink failed_writer \<and> w_err w' = Some (IOError 7)) \<and>
   ReadBits failed_reader 5 = ((0, Some EOF), failed_reader) \<and>
   ReadBit failed_reader = ((0, Some EOF), failed_reader) \<and>
   r_source (Reader_Align failed_reader) = r_source failed_reader \<and>
   r_err (Reader_Align failed_reader) = Some EOF"
  using bitstream_errors_sticky [where w = failed_writer and e = "IOError 7" and x = 9 and width = 4
      and r = failed_reader and e' = EOF and rwidth = 5
      and ?w0.0 = "NewWriter failing_sink" and ?x0.0 = 131071 and ?width0.0 = 17
      and ?w1.0 = "\<lparr>w_sink = \<lparr>calls = [[255, 255]], outcomes = []\<rparr>, w_bits = 1, w_nbits = 1,
            w_err = Some (IOError 7)\<rparr>" and ?e0.0 = "IOError 7"
      and ?w2.0 = "NewWriter failing_sink"
      and ?w3.0 = "\<lparr>w_sink = \<lparr>calls = [[]], outcomes = []\<rparr>, w_bits = 0, w_nbits = 0,
            w_err = Some (IOError 7)\<rparr>" and ?e2.0 = "IOError 7"
      and ?r0.0 = "NewReader (bytes_source [])" and ?rwidth0.0 = 3 and v = 0 and ?e1.0 = EOF
      and ?r1.0 = "\<lparr>r_source = \<lparr>nreads = 1, pending = []\<rparr>, r_bits = 0, r_nbits = 0,
            r_err = Some EOF\<rparr>"]
    ex_WriteBits ex_Align ex_ReadBits
  by (simp add: failed_writer_def failed_reader_def)

text \<open>
  C4. \<open>WriteBits(3, 1)\<close> then \<open>WriteBits(0, 1)\<close>, closed and read back as two values of
  one bit, gives 1 and 1: the second bit of the value 3 has reached the stream and is read
  as the second value, which was written as 0.
\<close>

theorem WriteBits_keeps_high_bits:
  "write_then_read [(3, 1), (0, 1)] = Inr [(1, None), (1, None)]"
  by (simp add: write_then_read_def WriteBits_def NewWriter_def new_sink_def Close_def Align_def
      flushpartial_def flush_def sink_Write_def flush_loop.simps written_def
      ReadBits_def NewReader_def bytes_source_def read_def source_Read_def read_loop.simps word_sless_alt)

section \<open>The bit stream: values that fit their width\<close>

lemma le_val_append: "le_val (a @ b) = le_val a + 256 ^ length a * le_val b"
  by (induction a) (simp_all add: algebra_simps)

lemma nat_or_push:
  fixes a :: nat
  assumes "a < 2 ^ n"
  shows "a OR push_bit n y = a + push_bit n y"
proof -
  have "\<not> bit a k \<or> \<not> bit (push_bit n y) k" for k
  proof (cases "k < n")
    case True
    then show ?thesis by (simp add: bit_push_bit_iff)
  next
    case False
    then have "(2::nat) ^ n \<le> 2 ^ k" by simp
    with assms have "a < 2 ^ k" by (rule less_le_trans)
    then have "a div 2 ^ k = 0" by simp
    then show ?thesis by (simp add: bit_iff_odd)
  qed
  then show ?thesis by (rule disjunctive_add [symmetric])
qed

lemma unat_push_small:
  fixes x :: u64
  assumes "2 ^ n * unat x < 2 ^ 64"
  shows "unat (push_bit n x) = 2 ^ n * unat x"
proof -
  have "unat (push_bit n x) = take_bit 64 (push_bit n (unat x))"
    by (simp add: unsigned_push_bit_eq)
  also have "\<dots> = push_bit n (unat x)"
    using assms by (intro take_bit_nat_eq_self) (simp add: push_bit_eq_mult mult.commute)
  finally show ?thesis by (simp add: push_bit_eq_mult)
qed

lemma or_push_add:
  fixes a x :: u64
  assumes "unat a < 2 ^ n" and "2 ^ n * unat x < 2 ^ 64"
  shows "unat (a OR push_bit n x) = unat a + 2 ^ n * unat x"
proof -
  have "unat (a OR push_bit n x) = unat a OR unat (push_bit n x)"
    by (simp add: unsigned_or_eq)
  also have "\<dots> = unat a OR push_bit n (unat x)"
    using unat_push_small [OF assms(2)] by (simp add: push_bit_eq_mult mult.commute)
  also have "\<dots> = unat a + push_bit n (unat x)"
    using assms(1) by (rule nat_or_push)
  finally show ?thesis by (simp add: push_bit_eq_mult)
qed

lemma flush_loop_spec:
  "unat bits < 2 ^ unat nbits \<Longrightarrow> unat nbits + 8 * length buf \<le> 136 \<Longrightarrow>
     \<exists>b' n' out. flush_loop bits nbits buf = Some (b', n', buf @ out) \<and>
       unat n' \<le> 8 \<and> 8 * length out + unat n' = unat nbits \<and>
       le_val out + 256 ^ length out * unat b' = unat bits \<and>
       unat b' < 2 ^ unat n' \<and> (0 < unat nbits \<longrightarrow> 0 < unat n')"
proof (induction bits nbits buf rule: flush_loop.induct)
  case (1 bits nbits buf)
  show ?case
  proof (cases "8 < nbits")
    case False
    then have "unat nbits \<le> 8" by (simp add: word_less_nat_alt)
    with False "1.prems" show ?thesis
      by (subst flush_loop.simps) simp
  next
    case True
    then have n8: "8 < unat nbits" by (simp add: word_less_nat_alt)
    then have len: "length buf < 16" using "1.prems"(2) by simp
    have sub: "unat (nbits - 8) = unat nbits - 8"
      using True by (subst unat_sub) (simp_all add: word_le_nat_alt word_less_nat_alt)
    have db: "unat (drop_bit 8 bits) = unat bits div 256"
      by (simp add: unat_drop_bit_eq drop_bit_eq_div unat_div)
    have byte: "unat (ucast bits :: byte) = unat bits mod 256"
      by (simp add: unsigned_ucast_eq take_bit_eq_mod)
    have "(2 :: nat) ^ unat nbits = 2 ^ (8 + (unat nbits - 8))"
      using n8 by simp
    also have "\<dots> = 2 ^ 8 * 2 ^ (unat nbits - 8)"
      by (simp only: power_add)
    finally have "2 ^ unat nbits = (256 :: nat) * 2 ^ (unat nbits - 8)" by simp
    with "1.prems"(1) have p1: "unat (drop_bit 8 bits) < 2 ^ unat (nbits - 8)"
      by (simp add: db sub less_mult_imp_div_less mult.commute)
    have p2: "unat (nbits - 8) + 8 * length (buf @ [ucast bits]) \<le> 136"
      using "1.prems"(2) n8 by (simp add: sub)
    from "1.IH" [OF True len p1 p2] obtain b' n' out where
      r: "flush_loop (drop_bit 8 bits) (nbits - 8) (buf @ [ucast bits]) = Some (b', n', (buf @ [ucast bits]) @ out)"
        "unat n' \<le> 8" "8 * length out + unat n' = unat (nbits - 8)"
        "le_val out + 256 ^ length out * unat b' = unat (drop_bit 8 bits)"
        "unat b' < 2 ^ unat n'" "0 < unat (nbits - 8) \<longrightarrow> 0 < unat n'"
      by (elim exE conjE) (rule that)
    have "flush_loop bits nbits buf = Some (b', n', buf @ (ucast bits # out))"
      using True len r(1) by (subst flush_loop.simps) simp
    moreover have "8 * length (ucast bits # out) + unat n' = unat nbits"
      using r(3) n8 by (simp add: sub)
    moreover have "le_val ((ucast bits :: byte) # out) + 256 ^ length (ucast bits # out) * unat b' = unat bits"
    proof -
      have "le_val ((ucast bits :: byte) # out) + 256 ^ length (ucast bits # out) * unat b' =
          unat bits mod 256 + 256 * (le_val out + 256 ^ length out * unat b')"
        by (simp add: byte algebra_simps)
      also have "\<dots> = unat bits mod 256 + 256 * (unat bits div 256)"
        by (simp only: r(4) db)
      also have "\<dots> = unat bits" by simp
      finally show ?thesis .
    qed
    moreover have "0 < unat n'" using r(6) n8 by (simp add: sub)
    ultimately show ?thesis using r(2,5) by blast
  qed
qed


lemma pow256: "(256 :: nat) ^ n = 2 ^ (8 * n)"
  by (simp add: power_mult)

lemma flush_spec:
  assumes "w_err w = None" "outcomes (w_sink w) = []" "unat (w_nbits w) \<le> 32"
    "unat (w_bits w) < 2 ^ unat (w_nbits w)"
  shows "\<exists>w'. flush w = Inr w' \<and> w_err w' = None \<and> outcomes (w_sink w') = [] \<and>
      unat (w_nbits w') \<le> 8 \<and> unat (w_bits w') < 2 ^ unat (w_nbits w') \<and>
      8 * length (written w') + unat (w_nbits w') = 8 * length (written w) + unat (w_nbits w) \<and>
      le_val (written w') + 256 ^ length (written w') * unat (w_bits w') =
        le_val (written w) + 256 ^ length (written w) * unat (w_bits w)"
proof -
  have "unat (w_nbits w) + 8 * length ([] :: byte list) \<le> 136" using assms(3) by simp
  from flush_loop_spec [OF assms(4) this]
  have "\<exists>b' n' out. flush_loop (w_bits w) (w_nbits w) [] = Some (b', n', out) \<and>
      unat n' \<le> 8 \<and> 8 * length out + unat n' = unat (w_nbits w) \<and>
      le_val out + 256 ^ length out * unat b' = unat (w_bits w) \<and> unat b' < 2 ^ unat n' \<and>
      (0 < unat (w_nbits w) \<longrightarrow> 0 < unat n')"
    by simp
  then obtain b' n' out where
    r: "flush_loop (w_bits w) (w_nbits w) [] = Some (b', n', out)"
      "unat n' \<le> 8" "8 * length out + unat n' = unat (w_nbits w)"
      "le_val out + 256 ^ length out * unat b' = unat (w_bits w)"
      "unat b' < 2 ^ unat n'" "0 < unat (w_nbits w) \<longrightarrow> 0 < unat n'"
    by (elim exE conjE) (rule that)
  define w' where "w' = w\<lparr>w_sink := (w_sink w)\<lparr>calls := calls (w_sink w) @ [out]\<rparr>,
      w_bits := b', w_nbits := n', w_err := None\<rparr>"
  have f: "flush w = Inr w'"
    using assms(1,2) r(1) by (simp add: flush_def sink_Write_def w'_def)
  have wr: "written w' = written w @ out" by (simp add: w'_def written_def)
  have bits': "w_bits w' = b'" by (simp add: w'_def)
  have "le_val (written w') + 256 ^ length (written w') * unat (w_bits w') =
      le_val (written w @ out) + 256 ^ length (written w @ out) * unat b'"
    by (simp only: wr bits')
  also have "\<dots> = le_val (written w) + 256 ^ length (written w) * (le_val out + 256 ^ length out * unat b')"
    by (simp add: le_val_append power_add algebra_simps)
  finally have "le_val (written w') + 256 ^ length (written w') * unat (w_bits w') =
      le_val (written w) + 256 ^ length (written w) * unat (w_bits w)"
    by (simp only: r(4))
  moreover have "8 * length (written w') + unat (w_nbits w') = 8 * length (written w) + unat (w_nbits w)"
    using r(3) by (simp add: w'_def written_def)
  ultimately show ?thesis
    using f r(2,5) assms(2) by (intro exI [of _ w']) (simp add: w'_def)
qed

lemma WriteBits_step:
  assumes "writer_holds w s l" "unat width \<le> 16" "unat x < 2 ^ unat width"
  shows "\<exists>w'. WriteBits w x width = Inr (w', None) \<and>
           writer_holds w' (s + 2 ^ l * unat x) (l + unat width)"
proof -
  from assms(1) have h: "w_err w = None" "outcomes (w_sink w) = []" "unat (w_nbits w) \<le> 16"
    "unat (w_bits w) < 2 ^ unat (w_nbits w)" "l = 8 * length (written w) + unat (w_nbits w)"
    "s = le_val (written w) + 256 ^ length (written w) * unat (w_bits w)"
    by (simp_all add: writer_holds_def)
  define w1 where "w1 = w\<lparr>w_bits := w_bits w OR push_bit (unat (w_nbits w)) x,
      w_nbits := w_nbits w + width\<rparr>"
  have nb: "unat (w_nbits w1) = unat (w_nbits w) + unat width"
    using h(3) assms(2) by (simp add: w1_def unat_add_lem [THEN iffD1])
  have "(2::nat) ^ unat width \<le> 2 ^ 16" using assms(2) by (intro power_increasing) simp_all
  with assms(3) have x16: "unat x < 2 ^ 16" by simp
  have "(2::nat) ^ unat (w_nbits w) \<le> 2 ^ 16" using h(3) by (intro power_increasing) simp_all
  then have "2 ^ unat (w_nbits w) * unat x \<le> 2 ^ 16 * 2 ^ 16"
    using x16 by (intro mult_mono) simp_all
  then have small: "2 ^ unat (w_nbits w) * unat x < 2 ^ 64" by simp
  have bits: "unat (w_bits w1) = unat (w_bits w) + 2 ^ unat (w_nbits w) * unat x"
    using or_push_add [OF h(4) small] by (simp add: w1_def)
  have "2 ^ unat (w_nbits w) * unat x + 2 ^ unat (w_nbits w) \<le> 2 ^ unat (w_nbits w) * 2 ^ unat width"
    using assms(3) by (simp add: algebra_simps) (metis Suc_leI mult_Suc_right mult_le_mono2 mult.commute)
  then have lt: "unat (w_bits w1) < 2 ^ unat (w_nbits w1)"
    using h(4) by (simp add: bits nb power_add)
  have wr1: "written w1 = written w" by (simp add: w1_def written_def)
  have "le_val (written w1) + 256 ^ length (written w1) * unat (w_bits w1) =
      le_val (written w) + 256 ^ length (written w) * (unat (w_bits w) + 2 ^ unat (w_nbits w) * unat x)"
    by (simp only: wr1 bits)
  also have "\<dots> = s + 2 ^ l * unat x"
    by (simp add: h(5,6) pow256 power_add algebra_simps)
  finally have s1: "le_val (written w1) + 256 ^ length (written w1) * unat (w_bits w1) = s + 2 ^ l * unat x" .
  have l1: "8 * length (written w1) + unat (w_nbits w1) = l + unat width"
    by (simp add: nb h(5) wr1)
  have e1: "w_err w1 = None" "outcomes (w_sink w1) = []" using h(1,2) by (simp_all add: w1_def)
  show ?thesis
  proof (cases "16 < w_nbits w1")
    case False
    then have "unat (w_nbits w1) \<le> 16" by (simp add: word_less_nat_alt)
    with False e1 lt s1 l1 show ?thesis
      by (simp add: WriteBits_def Let_def w1_def [symmetric] writer_holds_def)
  next
    case True
    have "unat (w_nbits w1) \<le> 32" using nb h(3) assms(2) by simp
    from flush_spec [OF e1 this lt] obtain w' where
      r: "flush w1 = Inr w'" "w_err w' = None" "outcomes (w_sink w') = []"
        "unat (w_nbits w') \<le> 8" "unat (w_bits w') < 2 ^ unat (w_nbits w')"
        "8 * length (written w') + unat (w_nbits w') = 8 * length (written w1) + unat (w_nbits w1)"
        "le_val (written w') + 256 ^ length (written w') * unat (w_bits w') =
           le_val (written w1) + 256 ^ length (written w1) * unat (w_bits w1)"
      by (elim exE conjE) (rule that)
    have "writer_holds w' (s + 2 ^ l * unat x) (l + unat width)"
      using r s1 l1 by (simp add: writer_holds_def)
    with True r(1,2) show ?thesis
      by (simp add: WriteBits_def Let_def w1_def [symmetric])
  qed
qed


lemma Close_spec:
  assumes "writer_holds w s l"
  shows "\<exists>w'. Close w = Inr (w', None) \<and> le_val (written w') = s \<and> l \<le> 8 * length (written w')"
proof -
  from assms have h: "w_err w = None" "outcomes (w_sink w) = []" "unat (w_nbits w) \<le> 16"
    "unat (w_bits w) < 2 ^ unat (w_nbits w)" "l = 8 * length (written w) + unat (w_nbits w)"
    "s = le_val (written w) + 256 ^ length (written w) * unat (w_bits w)"
    by (simp_all add: writer_holds_def)
  have "unat (w_nbits w) \<le> 32" using h(3) by simp
  from flush_spec [OF h(1,2) this h(4)] obtain w1 where
    r: "flush w = Inr w1" "w_err w1 = None" "outcomes (w_sink w1) = []"
      "unat (w_nbits w1) \<le> 8" "unat (w_bits w1) < 2 ^ unat (w_nbits w1)"
      "8 * length (written w1) + unat (w_nbits w1) = 8 * length (written w) + unat (w_nbits w)"
      "le_val (written w1) + 256 ^ length (written w1) * unat (w_bits w1) =
         le_val (written w) + 256 ^ length (written w) * unat (w_bits w)"
    by (elim exE conjE) (rule that)
  note r = r(1-5) r(6) [folded h(5)] r(7) [folded h(6)]
  show ?thesis
  proof (cases "0 < w_nbits w1")
    case False
    then have z: "unat (w_nbits w1) = 0" by (simp add: word_less_nat_alt)
    with r(5) have "unat (w_bits w1) = 0" by simp
    with r(6,7) z have "le_val (written w1) = s" "l \<le> 8 * length (written w1)" by simp_all
    with False r(1,2) show ?thesis
      by (simp add: Close_def Align_def flushpartial_def)
  next
    case True
    define w2 where "w2 = w1\<lparr>w_sink := (w_sink w1)\<lparr>calls := calls (w_sink w1) @ [[ucast (w_bits w1)]]\<rparr>,
        w_err := None, w_bits := 0, w_nbits := 0\<rparr>"
    have c: "Close w = Inr (w2, None)"
      using True r(1,2,3) by (simp add: Close_def Align_def flushpartial_def sink_Write_def w2_def)
    have "(2::nat) ^ unat (w_nbits w1) \<le> 2 ^ 8" using r(4) by (intro power_increasing) simp_all
    with r(5) have "unat (w_bits w1) < 256" by simp
    then have byte: "unat (ucast (w_bits w1) :: byte) = unat (w_bits w1)"
      by (simp add: unsigned_ucast_eq take_bit_nat_eq_self)
    have wr: "written w2 = written w1 @ [ucast (w_bits w1)]" by (simp add: w2_def written_def)
    have "le_val (written w2) = s"
      using r(7) by (simp add: wr le_val_append byte)
    moreover have "l \<le> 8 * length (written w2)"
      using r(4,6) by (simp add: wr)
    ultimately show ?thesis using c by blast
  qed
qed

lemma write_all_spec:
  "writer_holds w s l \<Longrightarrow> \<forall>(x, width) \<in> set vws. unat width \<le> 16 \<and> unat x < 2 ^ unat width \<Longrightarrow>
     \<exists>w'. write_all w vws = Inr w' \<and> writer_holds w' (s + 2 ^ l * stream_val vws) (l + stream_len vws)"
proof (induction vws arbitrary: w s l)
  case Nil
  then show ?case by simp
next
  case (Cons p vws)
  obtain x width where p: "p = (x, width)" by (cases p)
  with Cons.prems(2) have ok: "unat width \<le> 16" "unat x < 2 ^ unat width" by simp_all
  from WriteBits_step [OF Cons.prems(1) ok] obtain w1 where
    a: "WriteBits w x width = Inr (w1, None)" "writer_holds w1 (s + 2 ^ l * unat x) (l + unat width)"
    by blast
  have "\<forall>(x, width) \<in> set vws. unat width \<le> 16 \<and> unat x < 2 ^ unat width"
    using Cons.prems(2) by simp
  from Cons.IH [OF a(2) this] obtain w' where
    b: "write_all w1 vws = Inr w'"
      "writer_holds w' (s + 2 ^ l * unat x + 2 ^ (l + unat width) * stream_val vws) (l + unat width + stream_len vws)"
    by blast
  have e1: "s + 2 ^ l * unat x + 2 ^ (l + unat width) * stream_val vws = s + 2 ^ l * stream_val (p # vws)"
    by (simp add: p power_add algebra_simps)
  have e2: "l + unat width + stream_len vws = l + stream_len (p # vws)" by (simp add: p)
  have "write_all w (p # vws) = Inr w'" using a(1) b(1) by (simp add: p)
  moreover have "writer_holds w' (s + 2 ^ l * stream_val (p # vws)) (l + stream_len (p # vws))"
    using b(2) unfolding e1 e2 .
  ultimately show ?case by blast
qed

lemma NewWriter_holds: "writer_holds (NewWriter new_sink) 0 0"
  by (simp add: writer_holds_def NewWriter_def new_sink_def written_def)

lemma uint_small:
  fixes a :: u64
  assumes "unat a < 2 ^ 62"
  shows "uint a < 2 ^ 62" "0 \<le> uint a"
proof -
  from assms have "int (unat a) < int (2 ^ 62)" by (simp only: of_nat_less_iff)
  then show "uint a < 2 ^ 62" by simp
  show "0 \<le> uint a" by simp
qed

lemma sint_small:
  fixes a :: u64
  assumes "unat a < 2 ^ 62"
  shows "sint a = uint a"
proof -
  have lo: "- (2 ^ 63) \<le> uint a"
    by (rule order_trans [OF _ uint_ge_0]) simp
  have hi: "uint a < 2 ^ 63"
    by (rule less_trans [OF uint_small(1) [OF assms]]) simp
  have "signed_take_bit 63 (uint a) = uint a"
    using lo hi by (rule signed_take_bit_int_eq_self)
  then show ?thesis by (simp add: sint_uint)
qed

lemma sint_diff_small:
  fixes a b :: u64
  assumes "unat a < 2 ^ 62" "unat b < 2 ^ 62"
  shows "sint (a - b) = uint a - uint b"
proof -
  have "sint (a - b) = signed_take_bit 63 (sint a - sint b)"
    by (simp add: sint_word_ariths)
  also have "\<dots> = signed_take_bit 63 (uint a - uint b)"
    by (simp only: sint_small [OF assms(1)] sint_small [OF assms(2)])
  also have "\<dots> = uint a - uint b"
  proof (rule signed_take_bit_int_eq_self)
    have p: "(2::int) ^ 62 = 4611686018427387904" "(2::int) ^ 63 = 9223372036854775808"
      by simp_all
    have b: "uint b < 2 ^ 62" "0 \<le> uint b"
      by (rule uint_small(1) [OF assms(2)]) (rule uint_ge_0)
    have a: "uint a < 2 ^ 62" "0 \<le> uint a"
      by (rule uint_small(1) [OF assms(1)]) (rule uint_ge_0)
    show "- (2 ^ 63) \<le> uint a - uint b" using a b unfolding p by linarith
    show "uint a - uint b < 2 ^ 63" using a b unfolding p by linarith
  qed
  finally show ?thesis .
qed

lemma uint_less_unat: "uint (a :: u64) < uint (b :: u64) \<longleftrightarrow> unat a < unat b"
  by (simp flip: word_less_def add: word_less_nat_alt)

lemma sless_diff_small:
  fixes a b :: u64
  assumes "unat a < 2 ^ 62" "unat b < 2 ^ 62"
  shows "0 <s a - b \<longleftrightarrow> unat b < unat a"
  by (simp add: word_sless_alt sint_diff_small [OF assms] uint_less_unat)

lemma sless_small:
  fixes a b :: u64
  assumes "unat a < 2 ^ 62" "unat b < 2 ^ 62"
  shows "a <s b \<longleftrightarrow> unat a < unat b"
  by (simp add: word_sless_alt sint_small [OF assms(1)] sint_small [OF assms(2)] uint_less_unat)

lemma and_mask_val:
  fixes x :: u64
  shows "unat (x AND (push_bit n 1 - 1)) = unat x mod 2 ^ n"
proof -
  have "push_bit n 1 - 1 = (mask n :: u64)" by (simp add: mask_eq_exp_minus_1 push_bit_eq_mult)
  then have "unat (x AND (push_bit n 1 - 1)) = unat (take_bit n x)"
    by (simp only: take_bit_eq_mask)
  also have "\<dots> = take_bit n (unat x)" by (rule unsigned_take_bit_eq)
  also have "\<dots> = unat x mod 2 ^ n" by (rule take_bit_eq_mod)
  finally show ?thesis .
qed

lemma le_val_bound: "le_val bs < 256 ^ length bs"
proof (induction bs)
  case Nil
  then show ?case by simp
next
  case (Cons b bs)
  have "unat b < 256" using unsigned_less [of b] by simp
  moreover have "le_val bs + 1 \<le> 256 ^ length bs" using Cons by simp
  then have "256 * (le_val bs + 1) \<le> 256 * 256 ^ length bs" by (rule mult_le_mono2)
  ultimately show ?case by simp
qed


lemma read_ok:
  assumes "r_err r = None" "pending (r_source r) = map (\<lambda>b. (b, None)) (b # bs)"
  shows "read r = r\<lparr>r_source := (r_source r)\<lparr>nreads := Suc (nreads (r_source r)),
                      pending := map (\<lambda>b. (b, None)) bs\<rparr>,
                    r_err := None, r_bits := ucast b\<rparr>"
  using assms by (simp add: read_def source_Read_def)

lemma unat_ucast_byte: "unat (ucast (b :: byte) :: u64) = unat b"
  by (simp add: unsigned_ucast_eq take_bit_nat_eq_self unsigned_less [of b, simplified] less_trans [OF unsigned_less [of b]])

lemma read_loop_spec:
  "r_err r = None \<Longrightarrow> pending (r_source r) = map (\<lambda>b. (b, None)) bs \<Longrightarrow>
   unat width \<le> 16 \<Longrightarrow> unat n + 8 * m < unat width + 8 \<Longrightarrow> unat width \<le> unat n + 8 * m \<Longrightarrow>
   m \<le> length bs \<Longrightarrow> unat x < 2 ^ unat n \<Longrightarrow>
     \<exists>r' x'. read_loop r width n x = (r', Some x') \<and> r_err r' = None \<and>
       pending (r_source r') = map (\<lambda>b. (b, None)) (drop m bs) \<and>
       r_nbits r' = r_nbits r - of_nat (8 * m) \<and>
       unat x + 2 ^ unat n * le_val bs = unat x' + 2 ^ (unat n + 8 * m) * le_val (drop m bs) \<and>
       unat x' < 2 ^ (unat n + 8 * m) \<and>
       (m = 0 \<longrightarrow> r' = r \<and> x' = x) \<and>
       (0 < m \<longrightarrow> unat (r_bits r') < 256 \<and>
          (\<exists>y < 2 ^ (unat n + 8 * (m - 1)). unat x' = y + 2 ^ (unat n + 8 * (m - 1)) * unat (r_bits r')))"
proof (induction m arbitrary: r bs n x)
  case 0
  have nsmall: "unat n < 2 ^ 62" "unat width < 2 ^ 62" using "0.prems"(3,4) by simp_all
  have "\<not> 0 <s width - n"
    using "0.prems"(5) by (simp add: sless_diff_small [OF nsmall(2,1)])
  then have "read_loop r width n x = (r, Some x)"
    by (subst read_loop.simps) simp
  with "0.prems" show ?case by simp
next
  case (Suc m)
  have nsmall: "unat n < 2 ^ 62" "unat width < 2 ^ 62" using Suc.prems(3,4) by simp_all
  have go: "0 <s width - n"
    using Suc.prems(4) by (simp add: sless_diff_small [OF nsmall(2,1)])
  from Suc.prems(6) obtain b bs' where bs: "bs = b # bs'" by (cases bs) auto
  define r2 where "r2 = r\<lparr>r_source := (r_source r)\<lparr>nreads := Suc (nreads (r_source r)),
                      pending := map (\<lambda>b. (b, None)) bs'\<rparr>,
                    r_err := None, r_bits := ucast b, r_nbits := r_nbits r - 8\<rparr>"
  note rr = read_ok [OF Suc.prems(1) Suc.prems(2) [unfolded bs]]
  define x2 where "x2 = x OR push_bit (unat n) (r_bits r2)"
  have step: "read_loop r width n x = read_loop r2 width (n + 8) x2"
    using go by (subst read_loop.simps) (simp add: Let_def x2_def r2_def rr)
  have n8: "unat (n + 8) = unat n + 8"
    using nsmall(1) by (simp add: unat_add_lem [THEN iffD1])
  have bb: "unat (r_bits r2) = unat b" by (simp add: r2_def unat_ucast_byte)
  have b256: "unat b < 256" using unsigned_less [of b] by simp
  have n16: "unat n < 16" using Suc.prems(3,4) by simp
  then have "(2::nat) ^ unat n \<le> 2 ^ 16" by (intro power_increasing) simp_all
  then have "2 ^ unat n * unat b \<le> 2 ^ 16 * 256"
    using b256 by (intro mult_mono) simp_all
  then have small: "2 ^ unat n * unat (r_bits r2) < 2 ^ 64" by (simp add: bb)
  have x2v: "unat x2 = unat x + 2 ^ unat n * unat b"
    using or_push_add [OF Suc.prems(7) small] by (simp add: x2_def bb)
  have "unat x + 1 \<le> 2 ^ unat n" using Suc.prems(7) by simp
  moreover have "2 ^ unat n * unat b \<le> 2 ^ unat n * 255"
    using b256 by (intro mult_le_mono2) simp
  ultimately have "unat x + 2 ^ unat n * unat b + 1 \<le> 2 ^ unat n + 2 ^ unat n * 255"
    by linarith
  then have x2lt: "unat x2 < 2 ^ unat (n + 8)"
    by (simp add: x2v n8 power_add)
  have p1: "r_err r2 = None" "pending (r_source r2) = map (\<lambda>b. (b, None)) bs'"
    by (simp_all add: r2_def)
  have p2: "unat (n + 8) + 8 * m < unat width + 8" "unat width \<le> unat (n + 8) + 8 * m" "m \<le> length bs'"
    using Suc.prems(4,5,6) by (simp_all add: n8 bs)
  from Suc.IH [OF p1 Suc.prems(3) p2 x2lt] obtain r' x' where
    r: "read_loop r2 width (n + 8) x2 = (r', Some x')" "r_err r' = None"
      "pending (r_source r') = map (\<lambda>b. (b, None)) (drop m bs')"
      "r_nbits r' = r_nbits r2 - of_nat (8 * m)"
      "unat x2 + 2 ^ unat (n + 8) * le_val bs' = unat x' + 2 ^ (unat (n + 8) + 8 * m) * le_val (drop m bs')"
      "unat x' < 2 ^ (unat (n + 8) + 8 * m)"
      "m = 0 \<longrightarrow> r' = r2 \<and> x' = x2"
      "0 < m \<longrightarrow> unat (r_bits r') < 256 \<and>
          (\<exists>y < 2 ^ (unat (n + 8) + 8 * (m - 1)). unat x' = y + 2 ^ (unat (n + 8) + 8 * (m - 1)) * unat (r_bits r'))"
    by (elim exE conjE) (rule that)
  have c1: "r_nbits r' = r_nbits r - of_nat (8 * Suc m)"
    using r(4) by (simp add: r2_def)
  have e: "unat (n + 8) + 8 * m = unat n + 8 * Suc m" by (simp add: n8)
  have "unat x + 2 ^ unat n * le_val bs = unat x2 + 2 ^ unat (n + 8) * le_val bs'"
    by (simp add: bs x2v n8 power_add algebra_simps)
  also have "\<dots> = unat x' + 2 ^ (unat n + 8 * Suc m) * le_val (drop m bs')"
    using r(5) unfolding e .
  finally have c2: "unat x + 2 ^ unat n * le_val bs =
      unat x' + 2 ^ (unat n + 8 * Suc m) * le_val (drop (Suc m) bs)"
    by (simp add: bs)
  have c3: "unat x' < 2 ^ (unat n + 8 * Suc m)"
    using r(6) unfolding e .
  have c4: "unat (r_bits r') < 256 \<and>
      (\<exists>y < 2 ^ (unat n + 8 * (Suc m - 1)). unat x' = y + 2 ^ (unat n + 8 * (Suc m - 1)) * unat (r_bits r'))"
  proof (cases "m = 0")
    case True
    with r(7) have "r' = r2" "x' = x2" by simp_all
    with True x2v bb b256 Suc.prems(7) show ?thesis by auto
  next
    case False
    then obtain k where k: "m = Suc k" by (cases m) auto
    from False r(8) have "unat (r_bits r') < 256"
      and "\<exists>y < 2 ^ (unat (n + 8) + 8 * (m - 1)). unat x' = y + 2 ^ (unat (n + 8) + 8 * (m - 1)) * unat (r_bits r')"
      by simp_all
    moreover have "unat (n + 8) + 8 * (m - 1) = unat n + 8 * (Suc m - 1)"
      by (simp add: n8 k)
    ultimately show ?thesis by simp
  qed
  show ?case
    using step r(1,2,3) c1 c2 c3 c4 by (simp add: bs)
qed


lemma pow_split: "w \<le> k \<Longrightarrow> (2::nat) ^ k = 2 ^ w * 2 ^ (k - w)"
  by (simp flip: power_add)

lemma mod_split:
  fixes a z :: nat
  assumes "w \<le> k"
  shows "(a + 2 ^ k * z) mod 2 ^ w = a mod 2 ^ w"
proof -
  have e: "2 ^ k * z = 2 ^ w * (2 ^ (k - w) * z)"
    by (simp only: pow_split [OF assms] mult.assoc)
  show ?thesis unfolding e by simp
qed

lemma div_split:
  fixes a z :: nat
  assumes "w \<le> k"
  shows "(a + 2 ^ k * z) div 2 ^ w = a div 2 ^ w + 2 ^ (k - w) * z"
proof -
  have e: "2 ^ k * z = 2 ^ w * (2 ^ (k - w) * z)"
    by (simp only: pow_split [OF assms] mult.assoc)
  show ?thesis unfolding e by simp
qed

lemma div_low:
  fixes y z :: nat
  assumes "y < 2 ^ q"
  shows "(y + 2 ^ q * z) div 2 ^ (q + t) = z div 2 ^ t"
proof -
  have "(y + 2 ^ q * z) div 2 ^ q = z" using assms by simp
  then show ?thesis by (simp add: power_add div_mult2_eq)
qed

lemma ReadBits_fast:
  assumes "reader_holds r bs" "unat width \<le> 16" "unat width < 8 - unat (r_nbits r)"
  shows "\<exists>v r'. ReadBits r width = ((v, None), r') \<and>
           unat v = remaining r bs mod 2 ^ unat width \<and> reader_holds r' bs \<and>
           remaining r' bs = remaining r bs div 2 ^ unat width \<and>
           available r' bs = available r bs - unat width"
proof -
  from assms(1) have h: "r_err r = None" "pending (r_source r) = map (\<lambda>b. (b, None)) bs"
    "unat (r_nbits r) \<le> 8" "unat (r_bits r) < 256"
    by (simp_all add: reader_holds_def)
  define N where "N = unat (r_nbits r)"
  define W where "W = unat width"
  have n0: "unat (8 - r_nbits r) = 8 - N"
    using h(3) by (subst unat_sub) (simp_all add: word_le_nat_alt N_def)
  have fast: "width <s 8 - r_nbits r"
    using assms(2,3) by (subst sless_small) (simp_all add: n0 N_def)
  define x where "x = drop_bit N (r_bits r)"
  have "unat x = drop_bit N (unat (r_bits r))"
    by (simp only: x_def unat_drop_bit_eq)
  then have xv: "unat x = unat (r_bits r) div 2 ^ N"
    by (simp only: drop_bit_eq_div)
  define r' where "r' = r\<lparr>r_nbits := r_nbits r + width\<rparr>"
  have rb: "ReadBits r width = ((x AND (push_bit W 1 - 1), None), r')"
    using h(1) fast by (simp add: ReadBits_def Let_def x_def N_def W_def r'_def)
  have nb': "unat (r_nbits r') = N + W"
    using h(3) assms(2) by (simp add: r'_def N_def W_def unat_add_lem [THEN iffD1])
  have WN: "W \<le> 8 - N" "W + N \<le> 8" using assms(3) by (simp_all add: W_def N_def)
  have rem: "remaining r bs = unat x + 2 ^ (8 - N) * le_val bs"
    by (simp add: remaining_def xv N_def)
  have v: "unat (x AND (push_bit W 1 - 1)) = remaining r bs mod 2 ^ W"
    by (simp only: and_mask_val rem mod_split [OF WN(1)])
  have "remaining r bs div 2 ^ W = unat x div 2 ^ W + 2 ^ (8 - N - W) * le_val bs"
    by (simp add: rem div_split [OF WN(1)])
  also have "unat x div 2 ^ W = unat (r_bits r) div 2 ^ (N + W)"
    by (simp add: xv power_add div_mult2_eq)
  finally have rem': "remaining r' bs = remaining r bs div 2 ^ W"
    by (simp add: remaining_def nb') (simp add: r'_def)
  have "reader_holds r' bs"
    using h WN nb' by (simp add: reader_holds_def) (simp add: r'_def)
  moreover have "available r' bs = available r bs - W"
    using WN by (simp add: available_def nb' N_def [symmetric])
  ultimately show ?thesis
    using rb v rem' by (simp add: W_def)
qed


lemma ReadBits_slow:
  assumes "reader_holds r bs" "unat width \<le> 16" "8 - unat (r_nbits r) \<le> unat width"
    "unat width \<le> available r bs"
  shows "\<exists>v r' bs'. ReadBits r width = ((v, None), r') \<and>
           unat v = remaining r bs mod 2 ^ unat width \<and> reader_holds r' bs' \<and>
           remaining r' bs' = remaining r bs div 2 ^ unat width \<and>
           available r' bs' = available r bs - unat width"
proof -
  from assms(1) have h: "r_err r = None" "pending (r_source r) = map (\<lambda>b. (b, None)) bs"
    "unat (r_nbits r) \<le> 8" "unat (r_bits r) < 256"
    by (simp_all add: reader_holds_def)
  define N where "N = unat (r_nbits r)"
  define W where "W = unat width"
  define n0 where "n0 = 8 - N"
  define m where "m = (W - n0 + 7) div 8"
  have N8: "N \<le> 8" using h(3) by (simp add: N_def)
  have W16: "W \<le> 16" using assms(2) by (simp add: W_def)
  have n0W: "n0 \<le> W" using assms(3) by (simp add: n0_def N_def W_def)
  have avail: "W \<le> n0 + 8 * length bs"
    using assms(4) by (simp add: available_def n0_def N_def W_def)
  have m1: "n0 + 8 * m < W + 8" using n0W unfolding m_def by arith
  have m2: "W \<le> n0 + 8 * m" using n0W unfolding m_def by arith
  have m3: "m \<le> length bs" using n0W avail unfolding m_def by arith
  have un0: "unat (8 - r_nbits r) = n0"
    using h(3) by (subst unat_sub) (simp_all add: word_le_nat_alt N_def n0_def)
  have slow: "\<not> width <s 8 - r_nbits r"
    using assms(2) n0W N8 by (subst sless_small) (simp_all add: un0 W_def n0_def)
  define x where "x = drop_bit N (r_bits r)"
  have "unat x = drop_bit N (unat (r_bits r))"
    by (simp only: x_def unat_drop_bit_eq)
  then have xv: "unat x = unat (r_bits r) div 2 ^ N"
    by (simp only: drop_bit_eq_div)
  have "unat (r_bits r) < 2 ^ N * 2 ^ n0"
    using h(4) N8 by (simp flip: power_add add: n0_def)
  then have xlt: "unat x < 2 ^ unat (8 - r_nbits r)"
    by (simp add: xv un0 less_mult_imp_div_less mult.commute)
  from read_loop_spec [OF h(1,2) assms(2) _ _ m3 xlt, unfolded un0 W_def [symmetric], OF m1 m2]
  obtain r1 x1 where
    l: "read_loop r width (8 - r_nbits r) x = (r1, Some x1)" "r_err r1 = None"
      "pending (r_source r1) = map (\<lambda>b. (b, None)) (drop m bs)"
      "r_nbits r1 = r_nbits r - of_nat (8 * m)"
      "unat x + 2 ^ n0 * le_val bs = unat x1 + 2 ^ (n0 + 8 * m) * le_val (drop m bs)"
      "unat x1 < 2 ^ (n0 + 8 * m)"
      "m = 0 \<longrightarrow> r1 = r \<and> x1 = x"
      "0 < m \<longrightarrow> unat (r_bits r1) < 256 \<and>
          (\<exists>y < 2 ^ (n0 + 8 * (m - 1)). unat x1 = y + 2 ^ (n0 + 8 * (m - 1)) * unat (r_bits r1))"
    by (elim exE conjE) (rule that)
  define r' where "r' = r1\<lparr>r_nbits := r_nbits r1 + width\<rparr>"
  have rb: "ReadBits r width = ((x1 AND (push_bit W 1 - 1), None), r')"
    using h(1) slow l(1) by (simp add: ReadBits_def x_def N_def W_def r'_def)
  have rem: "remaining r bs = unat x1 + 2 ^ (n0 + 8 * m) * le_val (drop m bs)"
    using l(5) by (simp add: remaining_def xv N_def [symmetric] n0_def [symmetric])
  have v: "unat (x1 AND (push_bit W 1 - 1)) = remaining r bs mod 2 ^ W"
    by (simp only: and_mask_val rem mod_split [OF m2])
  define t where "t = N + W - 8 * m"
  have t8: "t \<le> 8" "0 < t" "8 * m \<le> N + W"
    using m1 m2 N8 by (simp_all add: t_def n0_def)
  have "of_nat t + of_nat (8 * m) = (of_nat (N + W) :: u64)"
    using t8(3) by (simp only: of_nat_add [symmetric] t_def) simp
  then have "r_nbits r' = of_nat t"
    by (simp add: r'_def l(4) N_def W_def algebra_simps)
  then have nb': "unat (r_nbits r') = t"
    using t8(1) by (simp add: unat_of_nat)
  have bits': "unat (r_bits r') < 256"
    using l(7,8) h(4) by (cases "m = 0") (simp_all add: r'_def)
  have hold: "reader_holds r' (drop m bs)"
    using l(2,3) nb' t8(1) bits' by (simp add: reader_holds_def) (simp add: r'_def)
  have av: "available r' (drop m bs) = available r bs - W"
    using m3 m1 m2 N8 by (simp add: available_def nb' N_def [symmetric]) (simp add: t_def n0_def)
  have rem': "remaining r' (drop m bs) = remaining r bs div 2 ^ W"
  proof (cases "m = 0")
    case True
    with l(7) have e: "r1 = r" "x1 = x" by simp_all
    have Wn: "W = n0" using m2 n0W True by simp
    have t: "t = 8" using True N8 by (simp add: t_def Wn n0_def)
    have "remaining r' (drop m bs) = le_val bs"
      using h(4) by (simp add: remaining_def nb' t True) (simp add: r'_def e)
    moreover have "remaining r bs div 2 ^ W = le_val bs"
      using xlt by (simp add: rem True e Wn un0)
    ultimately show ?thesis by simp
  next
    case False
    then have mpos: "0 < m" by simp
    define q where "q = n0 + 8 * (m - 1)"
    from mpos l(8) obtain y where
      y: "y < 2 ^ q" "unat x1 = y + 2 ^ q * unat (r_bits r1)"
      by (auto simp: q_def)
    have q8: "n0 + 8 * m = q + 8" using mpos by (simp add: q_def)
    have Wq: "W = q + t" using mpos m1 m2 N8 by (simp add: q_def t_def n0_def)
    have p: "(2::nat) ^ (n0 + 8 * m) = 2 ^ q * 256"
      by (simp only: q8 power_add) simp
    have "remaining r bs = y + 2 ^ q * (unat (r_bits r1) + 256 * le_val (drop m bs))"
      by (simp only: rem y(2) p) (simp add: algebra_simps)
    then have "remaining r bs div 2 ^ W = (unat (r_bits r1) + 256 * le_val (drop m bs)) div 2 ^ t"
      by (simp only: Wq div_low [OF y(1)])
    also have "\<dots> = (unat (r_bits r1) + 2 ^ 8 * le_val (drop m bs)) div 2 ^ t" by simp
    also have "\<dots> = unat (r_bits r1) div 2 ^ t + 2 ^ (8 - t) * le_val (drop m bs)"
      by (rule div_split [OF t8(1)])
    finally show ?thesis
      by (simp add: remaining_def nb') (simp add: r'_def)
  qed
  show ?thesis
    using rb v hold rem' av by (auto simp: W_def)
qed


lemma ReadBits_spec:
  assumes "reader_holds r bs" "unat width \<le> 16" "unat width \<le> available r bs"
  shows "\<exists>v r' bs'. ReadBits r width = ((v, None), r') \<and>
           unat v = remaining r bs mod 2 ^ unat width \<and> reader_holds r' bs' \<and>
           remaining r' bs' = remaining r bs div 2 ^ unat width \<and>
           available r' bs' = available r bs - unat width"
proof (cases "unat width < 8 - unat (r_nbits r)")
  case True
  from ReadBits_fast [OF assms(1,2) True] show ?thesis by blast
next
  case False
  then have "8 - unat (r_nbits r) \<le> unat width" by simp
  from ReadBits_slow [OF assms(1,2) this assms(3)] show ?thesis .
qed

lemma stream_val_bound:
  "\<forall>(x, width) \<in> set vws. unat x < 2 ^ unat width \<Longrightarrow> stream_val vws < 2 ^ stream_len vws"
proof (induction vws)
  case Nil
  then show ?case by simp
next
  case (Cons p vws)
  obtain x width where p: "p = (x, width)" by (cases p)
  from Cons.prems have x: "unat x < 2 ^ unat width" by (simp add: p)
  from Cons have "stream_val vws + 1 \<le> 2 ^ stream_len vws" by simp
  then have "2 ^ unat width * (stream_val vws + 1) \<le> 2 ^ unat width * 2 ^ stream_len vws"
    by (rule mult_le_mono2)
  with x show ?case by (simp add: p power_add)
qed

lemma read_all_spec:
  "reader_holds r bs \<Longrightarrow> \<forall>(x, width) \<in> set vws. unat width \<le> 16 \<and> unat x < 2 ^ unat width \<Longrightarrow>
   stream_len vws \<le> available r bs \<Longrightarrow> remaining r bs mod 2 ^ stream_len vws = stream_val vws \<Longrightarrow>
     read_all r (map snd vws) = map (\<lambda>(x, width). (x, None)) vws"
proof (induction vws arbitrary: r bs)
  case Nil
  then show ?case by simp
next
  case (Cons p vws)
  obtain x width where p: "p = (x, width)" by (cases p)
  from Cons.prems(2) have ok: "unat width \<le> 16" "unat x < 2 ^ unat width"
    and rest: "\<forall>(x, width) \<in> set vws. unat width \<le> 16 \<and> unat x < 2 ^ unat width"
    by (simp_all add: p)
  define W where "W = unat width"
  define L where "L = stream_len vws"
  have av: "W \<le> available r bs" "L \<le> available r bs - W"
    using Cons.prems(3) by (simp_all add: p W_def L_def)
  have rm: "remaining r bs mod 2 ^ (W + L) = unat x + 2 ^ W * stream_val vws"
    using Cons.prems(4) by (simp add: p W_def L_def)
  from ReadBits_spec [OF Cons.prems(1) ok(1) av(1) [unfolded W_def]] obtain v r' bs' where
    a: "ReadBits r width = ((v, None), r')" "unat v = remaining r bs mod 2 ^ unat width"
      "reader_holds r' bs'" "remaining r' bs' = remaining r bs div 2 ^ unat width"
      "available r' bs' = available r bs - unat width"
    by (elim exE conjE) (rule that)
  note a = a(1) a(2) [folded W_def] a(3) a(4) [folded W_def] a(5) [folded W_def]
  have "remaining r bs mod 2 ^ W = remaining r bs mod 2 ^ (W + L) mod 2 ^ W"
    by (simp add: mod_mod_cancel le_imp_power_dvd)
  also have "\<dots> = unat x" using ok(2) by (simp only: rm) (simp add: W_def)
  finally have "unat v = unat x" using a(2) by simp
  then have v: "v = x" by (simp add: word_unat_eq_iff)
  have "remaining r' bs' mod 2 ^ L = remaining r bs mod 2 ^ (W + L) div 2 ^ W"
    by (simp add: a(4) div_exp_mod_exp_eq)
  also have "\<dots> = stream_val vws" using ok(2) by (simp only: rm) (simp add: W_def)
  finally have rm': "remaining r' bs' mod 2 ^ stream_len vws = stream_val vws" by (simp add: L_def)
  have av': "stream_len vws \<le> available r' bs'" using av(2) a(5) by (simp add: L_def)
  from Cons.IH [OF a(3) rest av' rm'] a(1) v show ?case by (simp add: p)
qed

lemma NewReader_holds:
  "reader_holds (NewReader (bytes_source bs)) bs"
  "remaining (NewReader (bytes_source bs)) bs = le_val bs"
  "available (NewReader (bytes_source bs)) bs = 8 * length bs"
  by (simp_all add: reader_holds_def remaining_def available_def NewReader_def bytes_source_def)

text \<open>
  What remains of the round trip of C4: values that fit their width (\<open>x < 2 ^ width\<close>,
  \<open>width \<le> 16\<close>) are read back as written, whatever their number.
\<close>

lemma write_then_read_ok:
  assumes "\<forall>(x, width) \<in> set vws. unat width \<le> 16 \<and> unat x < 2 ^ unat width"
  shows "write_then_read vws = Inr (map (\<lambda>(x, width). (x, None)) vws)"
proof -
  from write_all_spec [OF NewWriter_holds assms] obtain w1 where
    a: "write_all (NewWriter new_sink) vws = Inr w1" "writer_holds w1 (stream_val vws) (stream_len vws)"
    by auto
  from Close_spec [OF a(2)] obtain w2 where
    b: "Close w1 = Inr (w2, None)" "le_val (written w2) = stream_val vws"
      "stream_len vws \<le> 8 * length (written w2)"
    by blast
  have "\<forall>(x, width) \<in> set vws. unat x < 2 ^ unat width" using assms by auto
  from stream_val_bound [OF this]
  have "remaining (NewReader (bytes_source (written w2))) (written w2) mod 2 ^ stream_len vws = stream_val vws"
    by (simp add: NewReader_holds(2) b(2))
  from read_all_spec [OF NewReader_holds(1) assms _ this] b(3)
  have "read_all (NewReader (bytes_source (written w2))) (map snd vws) = map (\<lambda>(x, width). (x, None)) vws"
    by (simp add: NewReader_holds(3))
  with a(1) b(1) show ?thesis by (simp add: write_then_read_def)
qed

section \<open>Decoding\<close>

lemma decode_presence_items:
  "set (snd (decode_presence idx dec items)) \<subseteq> set items \<union> set idx"
proof (induction idx arbitrary: dec items)
  case Nil
  then show ?case by simp
next
  case (Cons a idx)
  obtain b dec' where d: "mDecode dec = (b, dec')" by (cases "mDecode dec")
  show ?case
    using Cons.IH [of dec' "items @ [a]"] Cons.IH [of dec' items] d by auto
qed

lemma decode_presence_reads:
  "i \<in> set (snd (decode_presence idx dec items)) \<Longrightarrow> i \<notin> set items \<Longrightarrow>
     \<exists>j < length idx. idx ! j = i \<and> fst (mDecode (drop j dec)) = 1"
proof (induction idx arbitrary: dec items)
  case Nil
  then show ?case by simp
next
  case (Cons a idx)
  obtain b dec' where d: "mDecode dec = (b, dec')" by (cases "mDecode dec")
  then have dec': "dec' = drop 1 dec"
    by (auto simp: mDecode_def split: list.splits)
  show ?case
  proof (cases "b = 1 \<and> a = i")
    case True
    with d have "(a # idx) ! 0 = i \<and> fst (mDecode (drop 0 dec)) = 1" by simp
    then show ?thesis by blast
  next
    case False
    define items' where "items' = (if b = 1 then items @ [a] else items)"
    from Cons.prems(1) d have in': "i \<in> set (snd (decode_presence idx dec' items'))"
      by (simp add: items'_def split: if_splits)
    have "i \<notin> set items'" using False Cons.prems(2) by (auto simp: items'_def)
    from Cons.IH [OF in' this] obtain j where "j < length idx" "idx ! j = i"
      "fst (mDecode (drop j dec')) = 1" by blast
    then have "Suc j < length (a # idx) \<and> (a # idx) ! Suc j = i \<and> fst (mDecode (drop (Suc j) dec)) = 1"
      by (simp add: dec')
    then show ?thesis by blast
  qed
qed

lemma decode_interacting_ok:
  "\<forall>i \<in> set items. i < length current \<Longrightarrow>
     \<exists>dec' cur'. decode_interacting items dec current = Inr (dec', cur') \<and>
       length cur' = length current \<and> map fields6 cur' = map fields6 current \<and>
       (\<forall>j. j \<notin> set items \<longrightarrow> cur' ! j = current ! j)"
proof (induction items arbitrary: dec current)
  case Nil
  then show ?case by simp
next
  case (Cons i items)
  obtain b dec1 where d: "mDecode dec = (b, dec1)" by (cases "mDecode dec")
  define cur1 where "cur1 = current[i := (current ! i)\<lparr>Interacting := ucast (b XOR 1)\<rparr>]"
  have i: "i < length current" using Cons.prems by simp
  have step: "decode_interacting (i # items) dec current = decode_interacting items dec1 cur1"
    using i d by (simp add: at_def cur1_def)
  have len: "length cur1 = length current" by (simp add: cur1_def)
  have f6: "map fields6 cur1 = map fields6 current"
    using i by (simp add: cur1_def map_update fields6_def list_update_same_conv)
  have "\<forall>i \<in> set items. i < length cur1" using Cons.prems len by simp
  from Cons.IH [OF this, of dec1] obtain dec' cur' where
    r: "decode_interacting items dec1 cur1 = Inr (dec', cur')" "length cur' = length cur1"
      "map fields6 cur' = map fields6 cur1" "\<forall>j. j \<notin> set items \<longrightarrow> cur' ! j = cur1 ! j"
    by blast
  have "\<forall>j. j \<notin> set (i # items) \<longrightarrow> cur' ! j = current ! j"
    using r(4) by (simp add: cur1_def)
  with step r len f6 show ?case by simp
qed

lemma decode_largest_ok:
  "\<forall>i \<in> set items. i < length current \<Longrightarrow> length baseline = length current \<Longrightarrow>
     \<exists>dec' cur'. decode_largest baseline items dec current = Inr (dec', cur') \<and>
       length cur' = length current \<and> map fields6 cur' = map fields6 current \<and>
       (\<forall>j. j \<notin> set items \<longrightarrow> cur' ! j = current ! j)"
proof (induction items arbitrary: dec current)
  case Nil
  then show ?case by simp
next
  case (Cons i items)
  obtain v0 dec1 where d0: "mDecode dec = (v0, dec1)" by (cases "mDecode dec")
  obtain v1 dec2 where d1: "mDecode dec1 = (v1, dec2)" by (cases "mDecode dec1")
  define cur1 where
    "cur1 = current[i := (current ! i)\<lparr>Largest := Largest (baseline ! i) XOR ucast (push_bit 1 v1 OR v0)\<rparr>]"
  have i: "i < length current" using Cons.prems by simp
  have step: "decode_largest baseline (i # items) dec current = decode_largest baseline items dec2 cur1"
    using i d0 d1 Cons.prems(2) by (simp add: at_def cur1_def)
  have len: "length cur1 = length current" by (simp add: cur1_def)
  have f6: "map fields6 cur1 = map fields6 current"
    using i by (simp add: cur1_def map_update fields6_def list_update_same_conv)
  have "\<forall>i \<in> set items. i < length cur1" using Cons.prems len by simp
  from Cons.IH [OF this, of dec2] Cons.prems(2) len obtain dec' cur' where
    r: "decode_largest baseline items dec2 cur1 = Inr (dec', cur')" "length cur' = length cur1"
      "map fields6 cur' = map fields6 cur1" "\<forall>j. j \<notin> set items \<longrightarrow> cur' ! j = cur1 ! j"
    by auto
  have "\<forall>j. j \<notin> set (i # items) \<longrightarrow> cur' ! j = current ! j"
    using r(4) by (simp add: cur1_def)
  with step r len f6 show ?case by simp
qed

lemma Decode_ok:
  "\<exists>current. Decode snapshot baseline = Inr current \<and> length current = length baseline \<and>
     map fields6 current = map fields6 baseline \<and>
     (\<forall>j. j \<notin> set (snd (decode_presence [0..<length baseline] (NewDecoder snapshot) []))
          \<longrightarrow> current ! j = baseline ! j)"
proof -
  obtain dec items where p: "decode_presence [0..<length baseline] (NewDecoder snapshot) [] = (dec, items)"
    by (cases "decode_presence [0..<length baseline] (NewDecoder snapshot) []")
  have "set items \<subseteq> {0..<length baseline}"
    using decode_presence_items [of "[0..<length baseline]" "NewDecoder snapshot" "[]"] p by simp
  then have rng: "\<forall>i \<in> set items. i < length baseline" by auto
  from decode_interacting_ok [OF rng, of dec] obtain dec1 cur1 where
    a: "decode_interacting items dec baseline = Inr (dec1, cur1)" "length cur1 = length baseline"
      "map fields6 cur1 = map fields6 baseline" "\<forall>j. j \<notin> set items \<longrightarrow> cur1 ! j = baseline ! j"
    by blast
  have "\<forall>i \<in> set items. i < length cur1" using rng a(2) by simp
  from decode_largest_ok [OF this, of baseline dec1] a(2) obtain dec2 cur2 where
    b: "decode_largest baseline items dec1 cur1 = Inr (dec2, cur2)" "length cur2 = length cur1"
      "map fields6 cur2 = map fields6 cur1" "\<forall>j. j \<notin> set items \<longrightarrow> cur2 ! j = cur1 ! j"
    by auto
  have "Decode snapshot baseline = Inr cur2"
    using p a(1) b(1) by (simp add: Decode_def Assign_def andthen_def)
  with a b p show ?thesis by simp
qed

text \<open>
  C7. \<open>Decode\<close> gives a frame for every snapshot, whatever its length and content, and
  never a panic or an error: the result is always \<open>Inr\<close> of a frame as long as the
  baseline.
\<close>

theorem Decode_never_fails:
  "\<exists>current. Decode snapshot baseline = Inr current \<and> length current = length baseline"
  using Decode_ok [of snapshot baseline] by blast

text \<open>
  C9. \<open>Decode\<close> starts from a copy of the baseline, and at every object index whose
  decoded presence symbol (the \<open>i\<close>-th symbol read from the snapshot) is 0 the decoded
  cube equals the baseline cube.
\<close>

theorem Decode_unchanged_is_baseline:
  "i < length baseline \<Longrightarrow> fst (mDecode (drop i (NewDecoder snapshot))) = 0 \<Longrightarrow>
     \<exists>current. Decode snapshot baseline = Inr current \<and> current ! i = baseline ! i"
proof -
  assume i: "i < length baseline" and z: "fst (mDecode (drop i (NewDecoder snapshot))) = 0"
  have "i \<notin> set (snd (decode_presence [0..<length baseline] (NewDecoder snapshot) []))"
  proof
    assume "i \<in> set (snd (decode_presence [0..<length baseline] (NewDecoder snapshot) []))"
    from decode_presence_reads [OF this] obtain j where
      "j < length baseline" "[0..<length baseline] ! j = i" "fst (mDecode (drop j (NewDecoder snapshot))) = 1"
      by auto
    with z show False by simp
  qed
  with Decode_ok [of snapshot baseline] show ?thesis by blast
qed

theorem Decode_unchanged_is_baseline_witness:
  "(0::nat) < length [zero_cube\<lparr>X := 3\<rparr>, zero_cube] \<and>
   fst (mDecode (drop 0 (NewDecoder [0, 1, 1, 0, 1]))) = 0 \<and>
   (\<exists>current. Decode [0, 1, 1, 0, 1] [zero_cube\<lparr>X := 3\<rparr>, zero_cube] = Inr current \<and>
      current ! 0 = [zero_cube\<lparr>X := 3\<rparr>, zero_cube] ! 0)"
  using Decode_unchanged_is_baseline [of 0 "[zero_cube\<lparr>X := 3\<rparr>, zero_cube]" "[0, 1, 1, 0, 1]"]
  by (simp add: NewDecoder_def mDecode_def)

text \<open>No snapshot makes \<open>Decode\<close> change one of the fields A, B, C, X, Y, Z.\<close>

lemma Decode_keeps_six_fields:
  "Decode snapshot baseline = Inr current \<Longrightarrow> map fields6 current = map fields6 baseline"
  using Decode_ok [of snapshot baseline] by auto


section \<open>Encoding\<close>

lemma encode_presence_eq:
  "\<forall>i \<in> set idx. i < length current \<and> i < length baseline \<Longrightarrow>
     encode_presence current baseline idx enc items =
       Inr (enc @ map (\<lambda>i. if current ! i = baseline ! i then 0 else 1) idx,
            items @ filter (\<lambda>i. current ! i \<noteq> baseline ! i) idx)"
  by (induction idx arbitrary: enc items) (simp_all add: at_in_range mEncode_def)

lemma encode_interacting_eq:
  "\<forall>i \<in> set items. i < length current \<Longrightarrow>
     encode_interacting current items enc =
       Inr (enc @ map (\<lambda>i. scast (Interacting (current ! i) XOR 1)) items)"
  by (induction items arbitrary: enc) (simp_all add: at_in_range mEncode_def)

lemma encode_largest_eq:
  "\<forall>i \<in> set items. i < length current \<and> i < length baseline \<Longrightarrow>
     encode_largest current baseline items enc =
       Inr (enc @ concat (map (\<lambda>i. [scast (Largest (current ! i) XOR Largest (baseline ! i)) AND 1,
                                      drop_bit 1 (scast (Largest (current ! i) XOR Largest (baseline ! i)))])
                            items))"
  by (induction items arbitrary: enc) (simp_all add: at_in_range mEncode_def Let_def)

lemma index6_range:
  "\<forall>v \<in> set vs. 0 \<le> v \<and> v < N \<Longrightarrow> i \<in> set (index6 vs N) \<Longrightarrow> 0 \<le> i \<and> i < 6 * N"
  by (induction vs) auto

lemma encode_extras_ok:
  assumes "0 < length baseline" "length historic = length baseline" "length current = length baseline"
    and "\<forall>i \<in> set idx. 0 \<le> i \<and> i < 6 * int (length baseline)"
  shows "encode_extras historic baseline current idx = Inr ()"
  using assms(4)
proof (induction idx)
  case Nil
  then show ?case by simp
next
  case (Cons i idx)
  then have "0 \<le> i" "i < 6 * int (length baseline)" by simp_all
  from Extra6_in_range(2) [OF assms(1) this assms(2,3)]
  obtain v where "Extra6 historic baseline current i = Inr v" by blast
  with Cons show ?case by simp
qed


lemma decode_presence_eq:
  "\<forall>i \<in> set idx. f i = 0 \<or> f i = 1 \<Longrightarrow>
     decode_presence idx (map f idx @ rest) items = (rest, items @ filter (\<lambda>i. f i = 1) idx)"
  by (induction idx arbitrary: items) (auto simp: mDecode_def)

lemma decode_interacting_eq:
  "\<forall>i \<in> set items. i < length current \<Longrightarrow>
     \<exists>cur'. decode_interacting items (map g items @ rest) current = Inr (rest, cur') \<and>
       length cur' = length current \<and>
       (\<forall>j < length current. cur' ! j =
          (if j \<in> set items then (current ! j)\<lparr>Interacting := ucast (g j XOR 1)\<rparr> else current ! j))"
proof (induction items arbitrary: current)
  case Nil
  then show ?case by simp
next
  case (Cons i items)
  define cur1 where "cur1 = current[i := (current ! i)\<lparr>Interacting := ucast (g i XOR 1)\<rparr>]"
  have i: "i < length current" using Cons.prems by simp
  have step: "decode_interacting (i # items) (map g (i # items) @ rest) current =
      decode_interacting items (map g items @ rest) cur1"
    using i by (simp add: at_def cur1_def mDecode_def)
  have len: "length cur1 = length current" by (simp add: cur1_def)
  have "\<forall>i \<in> set items. i < length cur1" using Cons.prems len by simp
  from Cons.IH [OF this] obtain cur' where
    r: "decode_interacting items (map g items @ rest) cur1 = Inr (rest, cur')" "length cur' = length cur1"
      "\<forall>j < length cur1. cur' ! j =
          (if j \<in> set items then (cur1 ! j)\<lparr>Interacting := ucast (g j XOR 1)\<rparr> else cur1 ! j)"
    by blast
  have "\<forall>j < length current. cur' ! j =
      (if j \<in> set (i # items) then (current ! j)\<lparr>Interacting := ucast (g j XOR 1)\<rparr> else current ! j)"
  proof (intro allI impI)
    fix j assume j: "j < length current"
    show "cur' ! j =
      (if j \<in> set (i # items) then (current ! j)\<lparr>Interacting := ucast (g j XOR 1)\<rparr> else current ! j)"
      using r(3) j len i by (cases "j = i") (auto simp: cur1_def)
  qed
  with step r len show ?case by simp
qed

lemma decode_largest_eq:
  "\<forall>i \<in> set items. i < length current \<Longrightarrow> length baseline = length current \<Longrightarrow>
     \<exists>cur'. decode_largest baseline items (concat (map (\<lambda>i. [g0 i, g1 i]) items) @ rest) current
               = Inr (rest, cur') \<and>
       length cur' = length current \<and>
       (\<forall>j < length current. cur' ! j =
          (if j \<in> set items
           then (current ! j)\<lparr>Largest := Largest (baseline ! j) XOR ucast (push_bit 1 (g1 j) OR g0 j)\<rparr>
           else current ! j))"
proof (induction items arbitrary: current)
  case Nil
  then show ?case by simp
next
  case (Cons i items)
  define cur1 where "cur1 = current[i := (current ! i)\<lparr>Largest :=
      Largest (baseline ! i) XOR ucast (push_bit 1 (g1 i) OR g0 i)\<rparr>]"
  have i: "i < length current" using Cons.prems by simp
  have step: "decode_largest baseline (i # items)
        (concat (map (\<lambda>i. [g0 i, g1 i]) (i # items)) @ rest) current =
      decode_largest baseline items (concat (map (\<lambda>i. [g0 i, g1 i]) items) @ rest) cur1"
    using i Cons.prems(2) by (simp add: at_def cur1_def mDecode_def)
  have len: "length cur1 = length current" by (simp add: cur1_def)
  have "\<forall>i \<in> set items. i < length cur1" using Cons.prems len by simp
  from Cons.IH [OF this] Cons.prems(2) len obtain cur' where
    r: "decode_largest baseline items (concat (map (\<lambda>i. [g0 i, g1 i]) items) @ rest) cur1 = Inr (rest, cur')"
      "length cur' = length cur1"
      "\<forall>j < length cur1. cur' ! j =
          (if j \<in> set items
           then (cur1 ! j)\<lparr>Largest := Largest (baseline ! j) XOR ucast (push_bit 1 (g1 j) OR g0 j)\<rparr>
           else cur1 ! j)"
    by auto
  have "\<forall>j < length current. cur' ! j =
      (if j \<in> set (i # items)
       then (current ! j)\<lparr>Largest := Largest (baseline ! j) XOR ucast (push_bit 1 (g1 j) OR g0 j)\<rparr>
       else current ! j)"
  proof (intro allI impI)
    fix j assume j: "j < length current"
    show "cur' ! j =
      (if j \<in> set (i # items)
       then (current ! j)\<lparr>Largest := Largest (baseline ! j) XOR ucast (push_bit 1 (g1 j) OR g0 j)\<rparr>
       else current ! j)"
      using r(3) j len i by (cases "j = i") (auto simp: cur1_def)
  qed
  with step r len show ?case by simp
qed

lemma scast_xor_1_back: "(ucast ((scast (a :: i32) :: u64) XOR 1) :: i32) = a XOR 1"
  by (rule bit_word_eqI) (auto simp: bit_simps)

lemma planes_gen: "push_bit k (drop_bit k (v :: u64)) OR take_bit k v = v"
  by (rule bit_word_eqI) (auto simp: bit_simps)

lemma planes_back_simp: "drop_bit (Suc 0) (v :: u64) * 2 OR (v AND 1) = v"
  using planes_gen [of 1 v] by (simp add: take_bit_eq_mask)

lemma ucast_scast_back: "(ucast (scast (a :: i32) :: u64) :: i32) = a"
  by (rule bit_word_eqI) (auto simp: bit_simps)


lemma Encode_passes:
  assumes "length baseline = length current" and "length historic = length current"
  shows "Encode historic baseline current =
     Inr (map (\<lambda>i. if current ! i = baseline ! i then 0 else 1) [0..<length current] @
          map (\<lambda>i. scast (Interacting (current ! i) XOR 1))
            (filter (\<lambda>i. current ! i \<noteq> baseline ! i) [0..<length current]) @
          concat (map (\<lambda>i. [scast (Largest (current ! i) XOR Largest (baseline ! i)) AND 1,
                              drop_bit 1 (scast (Largest (current ! i) XOR Largest (baseline ! i)))])
            (filter (\<lambda>i. current ! i \<noteq> baseline ! i) [0..<length current])))"
proof -
  define items where "items = filter (\<lambda>i. current ! i \<noteq> baseline ! i) [0..<length current]"
  have rng: "\<forall>i \<in> set items. i < length current \<and> i < length baseline"
    using assms(1) by (simp add: items_def)
  have p: "encode_presence current baseline [0..<length current] NewEncoder [] =
      Inr (map (\<lambda>i. if current ! i = baseline ! i then 0 else 1) [0..<length current], items)"
    using assms(1) by (simp add: encode_presence_eq NewEncoder_def items_def)
  have x: "encode_extras historic baseline current (index6 (map int items) (int (length baseline))) = Inr ()"
  proof (cases "length baseline = 0")
    case True
    with rng have "items = []" by (cases items) auto
    then show ?thesis by simp
  next
    case False
    have "\<forall>v \<in> set (map int items). 0 \<le> v \<and> v < int (length baseline)"
      using rng by auto
    then have "\<forall>i \<in> set (index6 (map int items) (int (length baseline))).
        0 \<le> i \<and> i < 6 * int (length baseline)"
      using index6_range by blast
    with False assms show ?thesis by (intro encode_extras_ok) simp_all
  qed
  show ?thesis
    unfolding Encode_def items_def [symmetric]
    using rng by (simp add: p andthen_def encode_interacting_eq encode_largest_eq x)
qed

text \<open>
  C2 (as amended). On frames of one length, \<open>Encode\<close> passes to the coder: one presence
  symbol for every object; then, for each changed object in natural index order, exactly
  one symbol equal to \<open>current.Interacting XOR 1\<close> (the baseline's flag does not enter);
  then the two bit planes of \<open>Largest XOR baseline.Largest\<close> of each changed object.
  The decoder inverts the symbol again: its Interacting pass, run on the copy of the
  baseline over the changed objects and given these symbols (followed by any others),
  consumes exactly them and stores \<open>current.Interacting\<close> in every changed cube, leaving
  the other cubes as they are.
\<close>

theorem Encode_symbols:
  assumes "length baseline = length current" and "length historic = length current"
  shows "Encode historic baseline current =
     Inr (map (\<lambda>i. if current ! i = baseline ! i then 0 else 1) [0..<length current] @
          map (\<lambda>i. scast (Interacting (current ! i) XOR 1))
            (filter (\<lambda>i. current ! i \<noteq> baseline ! i) [0..<length current]) @
          concat (map (\<lambda>i. [scast (Largest (current ! i) XOR Largest (baseline ! i)) AND 1,
                              drop_bit 1 (scast (Largest (current ! i) XOR Largest (baseline ! i)))])
            (filter (\<lambda>i. current ! i \<noteq> baseline ! i) [0..<length current]))) \<and>
     (\<exists>cur'. decode_interacting (filter (\<lambda>i. current ! i \<noteq> baseline ! i) [0..<length current])
              (map (\<lambda>i. scast (Interacting (current ! i) XOR 1))
                 (filter (\<lambda>i. current ! i \<noteq> baseline ! i) [0..<length current]) @ rest)
              baseline = Inr (rest, cur') \<and>
        length cur' = length baseline \<and>
        (\<forall>j < length baseline. cur' ! j =
           (if current ! j \<noteq> baseline ! j
            then (baseline ! j)\<lparr>Interacting := Interacting (current ! j)\<rparr>
            else baseline ! j)))"
proof -
  define items where "items = filter (\<lambda>i. current ! i \<noteq> baseline ! i) [0..<length current]"
  define g :: "nat \<Rightarrow> u64" where "g = (\<lambda>i. scast (Interacting (current ! i) XOR 1))"
  have rng: "\<forall>i \<in> set items. i < length baseline"
    using assms(1) by (simp add: items_def)
  from decode_interacting_eq [OF rng, of g rest] obtain cur' where
    d: "decode_interacting items (map g items @ rest) baseline = Inr (rest, cur')"
      "length cur' = length baseline"
      "\<forall>j < length baseline. cur' ! j =
          (if j \<in> set items then (baseline ! j)\<lparr>Interacting := ucast (g j XOR 1)\<rparr> else baseline ! j)"
    by blast
  have inv1: "ucast (g j XOR 1) = Interacting (current ! j)" for j
    by (simp add: g_def scast_xor_1_back word_bw_assocs)
  have "\<forall>j < length baseline. cur' ! j =
      (if current ! j \<noteq> baseline ! j
       then (baseline ! j)\<lparr>Interacting := Interacting (current ! j)\<rparr>
       else baseline ! j)"
  proof (intro allI impI)
    fix j assume j: "j < length baseline"
    then have "j \<in> set items \<longleftrightarrow> current ! j \<noteq> baseline ! j"
      using assms(1) by (simp add: items_def)
    with d(3) j show "cur' ! j =
      (if current ! j \<noteq> baseline ! j
       then (baseline ! j)\<lparr>Interacting := Interacting (current ! j)\<rparr>
       else baseline ! j)"
      by (simp add: inv1)
  qed
  with d(1,2) have "\<exists>cur'. decode_interacting items (map g items @ rest) baseline = Inr (rest, cur') \<and>
      length cur' = length baseline \<and>
      (\<forall>j < length baseline. cur' ! j =
         (if current ! j \<noteq> baseline ! j
          then (baseline ! j)\<lparr>Interacting := Interacting (current ! j)\<rparr>
          else baseline ! j))"
    by blast
  then show ?thesis
    unfolding items_def g_def using Encode_passes [OF assms] by simp
qed

theorem Encode_symbols_witness:
  "length [zero_cube, zero_cube] = length [zero_cube, zero_cube\<lparr>Interacting := 1, Largest := 2\<rparr>] \<and>
   length [zero_cube\<lparr>X := 1\<rparr>, zero_cube] =
     length [zero_cube, zero_cube\<lparr>Interacting := 1, Largest := 2\<rparr>] \<and>
   Encode [zero_cube\<lparr>X := 1\<rparr>, zero_cube] [zero_cube, zero_cube]
     [zero_cube, zero_cube\<lparr>Interacting := 1, Largest := 2\<rparr>] = Inr [0, 1, 0, 0, 1] \<and>
   (\<exists>cur'. decode_interacting [1] ([0] @ [0, 1]) [zero_cube, zero_cube] = Inr ([0, 1], cur') \<and>
      length cur' = length [zero_cube, zero_cube] \<and>
      cur' ! 0 = zero_cube \<and> cur' ! 1 = zero_cube\<lparr>Interacting := 1\<rparr>)"
proof -
  let ?b = "[zero_cube, zero_cube]"
  let ?c = "[zero_cube, zero_cube\<lparr>Interacting := 1, Largest := 2\<rparr>]"
  let ?h = "[zero_cube\<lparr>X := 1\<rparr>, zero_cube]"
  have l: "length ?b = length ?c" "length ?h = length ?c" by simp_all
  have f: "filter (\<lambda>i. ?c ! i \<noteq> ?b ! i) [0..<length ?c] = [1]"
    by (simp add: zero_cube_def upt_rec [of 0] upt_rec [of 1] upt_rec [of 2])
  from Encode_symbols [OF l, of "[0, 1]"] obtain cur' where
    e: "Encode ?h ?b ?c = Inr [0, 1, 0, 0, 1]"
    and d: "decode_interacting [1] ([0] @ [0, 1]) ?b = Inr ([0, 1], cur')" "length cur' = length ?b"
      "\<forall>j < length ?b. cur' ! j =
         (if ?c ! j \<noteq> ?b ! j then (?b ! j)\<lparr>Interacting := Interacting (?c ! j)\<rparr> else ?b ! j)"
    unfolding f by (auto simp: zero_cube_def upt_rec [of 0] upt_rec [of 1] upt_rec [of 2])
  from d(3) have "cur' ! 0 = zero_cube" "cur' ! 1 = zero_cube\<lparr>Interacting := 1\<rparr>"
    by (simp_all add: zero_cube_def)
  with l e d(1,2) show ?thesis by blast
qed

text \<open>
  C2 (as stated) fails: with \<open>baseline.Interacting = 0\<close> and \<open>current.Interacting = 1\<close>
  the object has changed, the symbol coded for it in the Interacting pass is 0, and
  \<open>current.Interacting XOR baseline.Interacting\<close> is 1.
\<close>

theorem interacting_symbol_counterexample:
  "Encode [zero_cube] [zero_cube] [zero_cube\<lparr>Interacting := 1\<rparr>] = Inr [1, 0, 0, 0] \<and>
   encode_interacting [zero_cube\<lparr>Interacting := 1\<rparr>] [0] [1] = Inr [1, 0] \<and>
   (scast (Interacting (zero_cube\<lparr>Interacting := 1\<rparr>) XOR Interacting zero_cube) :: u64) = 1"
  by (simp add: Encode_def zero_cube_def andthen_def at_def NewEncoder_def mEncode_def Extra6_def
      signed_divide_int_def signed_modulo_int_def)

text \<open>
  C1. The round trip fails: a current frame that differs from the baseline in field A only
  is encoded as the four symbols 1, 1, 0, 0, and these decode to the baseline, not to the
  current frame.
\<close>

theorem roundtrip_loses_field_A:
  "Encode [zero_cube] [zero_cube] [zero_cube\<lparr>A := 1\<rparr>] = Inr [1, 1, 0, 0] \<and>
   Decode [1, 1, 0, 0] [zero_cube] = Inr [zero_cube] \<and>
   [zero_cube] \<noteq> [zero_cube\<lparr>A := 1\<rparr>]"
  by (simp add: Encode_def Decode_def Assign_def zero_cube_def andthen_def at_def NewEncoder_def mEncode_def
      NewDecoder_def mDecode_def Extra6_def signed_divide_int_def signed_modulo_int_def)

text \<open>
  What remains of the round trip of C1: a current frame that agrees with the baseline on
  A, B, C, X, Y, Z, and whose changed cubes have a 0/1 \<open>Interacting\<close> and a \<open>Largest\<close>
  that differs from the baseline's in the two low bits only (so that every symbol coded
  is a bit), is reconstructed exactly.
\<close>

lemma State_roundtrip_flags:
  assumes len: "length baseline = length current" "length historic = length current"
    and six: "\<forall>i < length current. fields6 (current ! i) = fields6 (baseline ! i)"
    and bits: "\<forall>i < length current. current ! i \<noteq> baseline ! i \<longrightarrow>
        (Interacting (current ! i) = 0 \<or> Interacting (current ! i) = 1) \<and>
        Largest (current ! i) XOR Largest (baseline ! i) \<le> 3"
  shows "\<exists>snapshot. Encode historic baseline current = Inr snapshot \<and>
           Decode snapshot baseline = Inr current"
proof -
  let ?N = "length current"
  define f :: "nat \<Rightarrow> u64" where "f = (\<lambda>i. if current ! i = baseline ! i then 0 else 1)"
  define g :: "nat \<Rightarrow> u64" where "g = (\<lambda>i. scast (Interacting (current ! i) XOR 1))"
  define v :: "nat \<Rightarrow> u64" where "v = (\<lambda>i. scast (Largest (current ! i) XOR Largest (baseline ! i)))"
  define items where "items = filter (\<lambda>i. current ! i \<noteq> baseline ! i) [0..<?N]"
  define larg where "larg = concat (map (\<lambda>i. [v i AND 1, drop_bit 1 (v i)]) items)"
  have enc: "Encode historic baseline current = Inr (map f [0..<?N] @ map g items @ larg)"
    using Encode_passes [OF len] by (simp add: f_def g_def v_def items_def larg_def)
  have fi: "filter (\<lambda>i. f i = 1) [0..<?N] = items"
    by (simp add: items_def f_def cong: filter_cong)
  have p: "decode_presence [0..<length baseline] (NewDecoder (map f [0..<?N] @ map g items @ larg)) []
      = (map g items @ larg, items)"
    using decode_presence_eq [of "[0..<?N]" f "map g items @ larg" "[]"] len(1)
    by (simp add: NewDecoder_def fi) (simp add: f_def)
  have rng: "\<forall>i \<in> set items. i < length baseline" using len(1) by (simp add: items_def)
  from decode_interacting_eq [OF rng, of g larg] obtain cur1 where
    a: "decode_interacting items (map g items @ larg) baseline = Inr (larg, cur1)"
      "length cur1 = length baseline"
      "\<forall>j < length baseline. cur1 ! j =
          (if j \<in> set items then (baseline ! j)\<lparr>Interacting := ucast (g j XOR 1)\<rparr> else baseline ! j)"
    by blast
  have rng1: "\<forall>i \<in> set items. i < length cur1" using rng a(2) by simp
  from decode_largest_eq [OF rng1, of baseline "\<lambda>i. v i AND 1" "\<lambda>i. drop_bit 1 (v i)" "[]"] a(2)
  obtain cur2 where
    b: "decode_largest baseline items larg cur1 = Inr ([], cur2)"
      "length cur2 = length cur1"
      "\<forall>j < length cur1. cur2 ! j =
          (if j \<in> set items
           then (cur1 ! j)\<lparr>Largest := Largest (baseline ! j) XOR
                  ucast (push_bit 1 (drop_bit 1 (v j)) OR (v j AND 1))\<rparr>
           else cur1 ! j)"
    by (auto simp: larg_def)
  have dec: "Decode (map f [0..<?N] @ map g items @ larg) baseline = Inr cur2"
    using p a(1) b(1) by (simp add: Decode_def Assign_def andthen_def)
  have "cur2 = current"
  proof (rule nth_equalityI)
    show "length cur2 = length current" using a(2) b(2) len(1) by simp
  next
    fix j assume "j < length cur2"
    then have j: "j < length current" "j < length baseline" "j < length cur1"
      using a(2) b(2) len(1) by simp_all
    show "cur2 ! j = current ! j"
    proof (cases "j \<in> set items")
      case False
      then have "current ! j = baseline ! j" using j by (simp add: items_def)
      with False a(3) b(3) j show ?thesis by simp
    next
      case True
      then have c2: "cur2 ! j = (baseline ! j)\<lparr>Interacting := ucast (g j XOR 1),
          Largest := Largest (baseline ! j) XOR ucast (v j)\<rparr>"
        using a(3) b(3) j by (simp add: planes_back_simp)
      have i: "ucast (g j XOR 1) = Interacting (current ! j)"
        by (simp add: g_def scast_xor_1_back word_bw_assocs)
      have l: "Largest (baseline ! j) XOR ucast (v j) = Largest (current ! j)"
        by (simp add: v_def ucast_scast_back word_bw_comms word_bw_lcs)
      from six j have "fields6 (current ! j) = fields6 (baseline ! j)" by simp
      then show ?thesis
        unfolding c2 i l by (intro Cube.equality) (simp_all add: fields6_def)
    qed
  qed
  with enc dec show ?thesis by simp
qed

end
